theory Spec2Isabelle
  imports Main "HOL-Library.Multiset"
begin

section \<open>Text, runes and the mask\<close>

text \<open>
  File \<^verbatim>\<open>pkg/toolsets/core/pii.go\<close>. A Go string is read here as the sequence of its
  code points (runes): that is the unit in which package \<^verbatim>\<open>regexp\<close> steps through its
  input and in which \<^verbatim>\<open>utf8.RuneCountInString\<close> counts. A rune is an \<^verbatim>\<open>int32\<close> in Go;
  code points are the integers from 0 to 0x10FFFF. The texts are valid Unicode texts:
  bytes that are not valid UTF-8 have no counterpart here.
\<close>

type_synonym rune = int
type_synonym gostr = "rune list"

definition star :: rune where
  "star = 42"

text \<open>
  The number of bytes that the UTF-8 encoding of a code point takes, and with it the
  length in bytes of a text (Go's \<^verbatim>\<open>len\<close>).
\<close>

definition utf8_len :: "rune \<Rightarrow> nat" where
  "utf8_len c = (if c < 128 then 1 else if c < 2048 then 2 else if c < 65536 then 3 else 4)"

definition byte_len :: "gostr \<Rightarrow> nat" where
  "byte_len s = sum_list (map utf8_len s)"

text \<open>An ASCII string literal as a Go string.\<close>

definition ascii :: "string \<Rightarrow> gostr" where
  "ascii s = map of_char s"

definition RuneCountInString :: "gostr \<Rightarrow> nat" where
  "RuneCountInString s = length s"

text \<open>\<^verbatim>\<open>strings.Repeat("*", utf8.RuneCountInString(s))\<close>\<close>

definition maskRunes :: "gostr \<Rightarrow> gostr" where
  "maskRunes s = replicate (RuneCountInString s) star"

section \<open>Regular expressions of package regexp\<close>

text \<open>
  The syntax that the ten patterns of the file use. A character class is a list of
  inclusive code-point ranges, as in Go's \<^verbatim>\<open>syntax.Regexp\<close>; \<open>NCls\<close> is a negated class.
  \<open>Rep r m None\<close> is \<^verbatim>\<open>r{m,}\<close> and \<open>Rep r m (Some n)\<close> is \<^verbatim>\<open>r{m,n}\<close>, both greedy;
  \<open>WordB\<close> is \<^verbatim>\<open>\b\<close>; \<open>Grp i r\<close> is the capturing group number \<open>i\<close>.
\<close>

datatype re =
    Eps
  | Lit gostr
  | Cls "(rune \<times> rune) list"
  | NCls "(rune \<times> rune) list"
  | Cat re re
  | Alt re re
  | Rep re nat "nat option"
  | WordB
  | Grp nat re

fun in_ranges :: "(rune \<times> rune) list \<Rightarrow> rune \<Rightarrow> bool" where
  "in_ranges [] c = False"
| "in_ranges ((lo, hi) # rs) c = ((lo \<le> c \<and> c \<le> hi) \<or> in_ranges rs c)"

text \<open>The ASCII word characters of \<^verbatim>\<open>\b\<close>: \<^verbatim>\<open>[0-9A-Za-z_]\<close>.\<close>

definition word_ranges :: "(rune \<times> rune) list" where
  "word_ranges = [(48, 57), (65, 90), (95, 95), (97, 122)]"

definition is_word :: "rune \<Rightarrow> bool" where
  "is_word c = in_ranges word_ranges c"

text \<open>
  The state of a match attempt: the rune before the current position (\<open>None\<close> at the
  start of the text), the text still to be read, and the captures made so far (latest
  first).
\<close>

type_synonym mstate = "rune option \<times> gostr \<times> (nat \<times> gostr) list"

definition rest_of :: "mstate \<Rightarrow> gostr" where
  "rest_of st = fst (snd st)"

definition consumed :: "gostr \<Rightarrow> gostr \<Rightarrow> gostr" where
  "consumed s s' = take (length s - length s') s"

definition at_boundary :: "rune option \<Rightarrow> gostr \<Rightarrow> bool" where
  "at_boundary p s =
     ((case p of None \<Rightarrow> False | Some c \<Rightarrow> is_word c) \<noteq>
      (case s of [] \<Rightarrow> False | c # cs \<Rightarrow> is_word c))"

text \<open>
  Greedy repetition of a step \<open>f\<close>, between \<open>mn\<close> and \<open>mx\<close> times: one more round is
  tried before stopping. A round that reads nothing is dropped (no pattern of the file
  repeats an expression that can match the empty text).
\<close>

function iter :: "(mstate \<Rightarrow> mstate list) \<Rightarrow> nat \<Rightarrow> nat option \<Rightarrow> mstate \<Rightarrow> mstate list" where
  "iter f mn mx st =
     (if mx = Some 0 then []
      else concat (map (iter f (mn - 1) (map_option (\<lambda>m. m - 1) mx))
             (filter (\<lambda>st'. length (rest_of st') < length (rest_of st)) (f st))))
     @ (if mn = 0 then [st] else [])"
  by pat_completeness auto
termination
  by (relation "measure (\<lambda>(f, mn, mx, st). length (rest_of st))") auto

declare iter.simps [simp del]

text \<open>
  All the ways in which \<open>r\<close> matches at the current position, in the order in which a
  backtracking search finds them: the first one is the match that package regexp
  reports at that position (leftmost-first semantics).
\<close>

primrec rmatch :: "re \<Rightarrow> mstate \<Rightarrow> mstate list" where
  "rmatch Eps st = [st]"
| "rmatch (Lit w) st =
     (case st of (p, s, g) \<Rightarrow>
        if w = [] then [st]
        else if take (length w) s = w then [(Some (last w), drop (length w) s, g)] else [])"
| "rmatch (Cls rs) st =
     (case st of (p, s, g) \<Rightarrow>
        (case s of [] \<Rightarrow> [] | c # cs \<Rightarrow> if in_ranges rs c then [(Some c, cs, g)] else []))"
| "rmatch (NCls rs) st =
     (case st of (p, s, g) \<Rightarrow>
        (case s of [] \<Rightarrow> [] | c # cs \<Rightarrow> if in_ranges rs c then [] else [(Some c, cs, g)]))"
| "rmatch (Cat r1 r2) st = concat (map (rmatch r2) (rmatch r1 st))"
| "rmatch (Alt r1 r2) st = rmatch r1 st @ rmatch r2 st"
| "rmatch (Rep r mn mx) st = iter (rmatch r) mn mx st"
| "rmatch WordB st =
     (case st of (p, s, g) \<Rightarrow> if at_boundary p s then [st] else [])"
| "rmatch (Grp i r) st =
     map (\<lambda>(p', s', g'). (p', s', (i, consumed (rest_of st) s') # g')) (rmatch r st)"

section \<open>Searching and replacing\<close>

text \<open>
  \<^verbatim>\<open>ReplaceAllStringFunc\<close> walks through the source text from left to right. At each
  position it takes the first match that begins there, if there is one, and goes on
  behind it; otherwise the rune at the position is copied and the search moves on by
  one rune. The rune before the position is the one of the source text, not of the
  replacement. \<open>scan\<close> returns this division of the text into copied runes and matches.
  A match of the empty text replaces nothing here; every replacement function of the
  file returns the empty text for it, and no pattern of the file matches it.
\<close>

datatype seg = Keep rune | Hit gostr

function scan :: "re \<Rightarrow> rune option \<Rightarrow> gostr \<Rightarrow> seg list" where
  "scan r p [] = []"
| "scan r p (c # cs) =
     (case rmatch r (p, c # cs, []) of
        [] \<Rightarrow> Keep c # scan r (Some c) cs
      | st # _ \<Rightarrow>
          if length (rest_of st) < length (c # cs)
          then Hit (consumed (c # cs) (rest_of st))
                 # scan r (Some (last (consumed (c # cs) (rest_of st)))) (rest_of st)
          else Keep c # scan r (Some c) cs)"
  by pat_completeness auto
termination
  by (relation "measure (\<lambda>(r, p, s). length s)") auto

primrec seg_src :: "seg \<Rightarrow> gostr" where
  "seg_src (Keep c) = [c]"
| "seg_src (Hit m) = m"

primrec seg_out :: "(gostr \<Rightarrow> gostr) \<Rightarrow> seg \<Rightarrow> gostr" where
  "seg_out f (Keep c) = [c]"
| "seg_out f (Hit m) = f m"

definition ReplaceAllStringFunc :: "re \<Rightarrow> gostr \<Rightarrow> (gostr \<Rightarrow> gostr) \<Rightarrow> gostr" where
  "ReplaceAllStringFunc r src repl = concat (map (seg_out repl) (scan r None src))"

text \<open>
  \<^verbatim>\<open>FindStringSubmatch\<close>: the leftmost match in \<open>s\<close> and the texts of its capturing
  groups, as the list \<open>[match, group 1, ..., group n]\<close>; the empty list (\<^verbatim>\<open>nil\<close>) when
  there is no match. A group that took no part in the match gives the empty text.
\<close>

fun find_first :: "re \<Rightarrow> rune option \<Rightarrow> gostr \<Rightarrow> (gostr \<times> (nat \<times> gostr) list) option" where
  "find_first r p s =
     (case rmatch r (p, s, []) of
        st # _ \<Rightarrow> Some (consumed s (rest_of st), snd (snd st))
      | [] \<Rightarrow> (case s of [] \<Rightarrow> None | c # cs \<Rightarrow> find_first r (Some c) cs))"

declare find_first.simps [simp del]

primrec NumSubexp :: "re \<Rightarrow> nat" where
  "NumSubexp Eps = 0"
| "NumSubexp (Lit w) = 0"
| "NumSubexp (Cls rs) = 0"
| "NumSubexp (NCls rs) = 0"
| "NumSubexp (Cat r1 r2) = NumSubexp r1 + NumSubexp r2"
| "NumSubexp (Alt r1 r2) = NumSubexp r1 + NumSubexp r2"
| "NumSubexp (Rep r mn mx) = NumSubexp r"
| "NumSubexp WordB = 0"
| "NumSubexp (Grp i r) = Suc (NumSubexp r)"

definition group_text :: "(nat \<times> gostr) list \<Rightarrow> nat \<Rightarrow> gostr" where
  "group_text g i = (case map_of g i of None \<Rightarrow> [] | Some m \<Rightarrow> m)"

definition FindStringSubmatch :: "re \<Rightarrow> gostr \<Rightarrow> gostr list" where
  "FindStringSubmatch r s =
     (case find_first r None s of
        None \<Rightarrow> []
      | Some (m, g) \<Rightarrow> m # map (group_text g) [1 ..< Suc (NumSubexp r)])"

section \<open>The patterns of pii.go\<close>

fun cats :: "re list \<Rightarrow> re" where
  "cats [] = Eps"
| "cats [r] = r"
| "cats (r # rs) = Cat r (cats rs)"

definition digit :: re where
  "digit = Cls [(48, 57)]"

text \<open>\<^verbatim>\<open>\s\<close> is \<^verbatim>\<open>[\t\n\f\r ]\<close> in package regexp.\<close>

definition space_ranges :: "(rune \<times> rune) list" where
  "space_ranges = [(9, 10), (12, 13), (32, 32)]"

definition opt :: "re \<Rightarrow> re" where
  "opt r = Rep r 0 (Some 1)"

text \<open>\<^verbatim>\<open>(?i)Bearer\s+\S+\<close>\<close>

definition bearerPattern :: re where
  "bearerPattern = cats
     [Cls [(66, 66), (98, 98)], Cls [(69, 69), (101, 101)], Cls [(65, 65), (97, 97)],
      Cls [(82, 82), (114, 114)], Cls [(69, 69), (101, 101)], Cls [(82, 82), (114, 114)],
      Rep (Cls space_ranges) 1 None, Rep (NCls space_ranges) 1 None]"

text \<open>\<^verbatim>\<open>eyJ[A-Za-z0-9_\-]+\.[A-Za-z0-9_\-]+\.[A-Za-z0-9_\-]*\<close>\<close>

definition base64url :: re where
  "base64url = Cls [(45, 45), (48, 57), (65, 90), (95, 95), (97, 122)]"

definition jwtPattern :: re where
  "jwtPattern = cats
     [Lit [101, 121, 74], Rep base64url 1 None, Lit [46], Rep base64url 1 None, Lit [46],
      Rep base64url 0 None]"

text \<open>\<^verbatim>\<open>\b[A-Z][12]\d{8}\b\<close>\<close>

definition idPattern :: re where
  "idPattern = cats [WordB, Cls [(65, 90)], Cls [(49, 50)], Rep digit 8 (Some 8), WordB]"

text \<open>\<^verbatim>\<open>\b[A-Za-z0-9._%+\-]+@[A-Za-z0-9.\-]+\.[A-Za-z]{2,}\b\<close>\<close>

definition emailPattern :: re where
  "emailPattern = cats
     [WordB,
      Rep (Cls [(37, 37), (43, 43), (45, 46), (48, 57), (65, 90), (95, 95), (97, 122)]) 1 None,
      Lit [64],
      Rep (Cls [(45, 46), (48, 57), (65, 90), (97, 122)]) 1 None,
      Lit [46],
      Rep (Cls [(65, 90), (97, 122)]) 2 None,
      WordB]"

text \<open>\<^verbatim>\<open>\b09\d{2}[-\s]?\d{3}[-\s]?\d{3}\b\<close>\<close>

definition dash_or_space :: re where
  "dash_or_space = Cls ((45, 45) # space_ranges)"

definition mobilePattern :: re where
  "mobilePattern = cats
     [WordB, Lit [48, 57], Rep digit 2 (Some 2), opt dash_or_space, Rep digit 3 (Some 3),
      opt dash_or_space, Rep digit 3 (Some 3), WordB]"

text \<open>\<^verbatim>\<open>\(0\d{1,3}\)\s?\d{3,4}[-\s]?\d{3,4}\<close>\<close>

definition landlineParenPattern :: re where
  "landlineParenPattern = cats
     [Lit [40, 48], Rep digit 1 (Some 3), Lit [41], opt (Cls space_ranges),
      Rep digit 3 (Some 4), opt dash_or_space, Rep digit 3 (Some 4)]"

text \<open>\<^verbatim>\<open>\b0\d{1,3}-\d{3,4}-?\d{3,4}\b\<close>\<close>

definition landlineDashPattern :: re where
  "landlineDashPattern = cats
     [WordB, Lit [48], Rep digit 1 (Some 3), Lit [45], Rep digit 3 (Some 4), opt (Lit [45]),
      Rep digit 3 (Some 4), WordB]"

text \<open>
  \<^verbatim>\<open>\d+(?:-\d+)*(?:H|L|S|Z\d+)\<close>, where the source has for \<^verbatim>\<open>H\<close>, \<^verbatim>\<open>L\<close>, \<^verbatim>\<open>S\<close>, \<^verbatim>\<open>Z\<close> the
  ideographs U+865F (34399), U+6A13 (27155), U+5BA4 (23460) and U+4E4B (20043).
\<close>

definition addressPattern :: re where
  "addressPattern = cats
     [Rep digit 1 None, Rep (Cat (Lit [45]) (Rep digit 1 None)) 0 None,
      Alt (Lit [34399]) (Alt (Lit [27155]) (Alt (Lit [23460])
        (Cat (Lit [20043]) (Rep digit 1 None))))]"

text \<open>\<^verbatim>\<open>\b\d{4}[ -]?\d{4}[ -]?\d{4}[ -]?\d{1,4}\b\<close>\<close>

definition space_or_dash :: re where
  "space_or_dash = Cls [(32, 32), (45, 45)]"

definition cardPattern :: re where
  "cardPattern = cats
     [WordB, Rep digit 4 (Some 4), opt space_or_dash, Rep digit 4 (Some 4), opt space_or_dash,
      Rep digit 4 (Some 4), opt space_or_dash, Rep digit 1 (Some 4), WordB]"

definition simplePatterns :: "re list" where
  "simplePatterns =
     [bearerPattern, jwtPattern, idPattern, emailPattern, mobilePattern, landlineParenPattern,
      landlineDashPattern, addressPattern, cardPattern]"

text \<open>
  \<^verbatim>\<open>((?:K1|K2|K3|K4|K5)[C:]\s*)([\x{4E00}-\x{9FFF}]{2,4})\<close>, where the source has for
  \<^verbatim>\<open>K1\<close> to \<^verbatim>\<open>K5\<close> the keywords U+59D3 U+540D, U+7533 U+8ACB U+4EBA, U+4F7F U+7528 U+8005,
  U+5BA2 U+6236 and U+540D U+5B57, and for \<^verbatim>\<open>C\<close> the full-width colon U+FF1A (65306).
\<close>

definition nameKeywords :: "gostr list" where
  "nameKeywords =
     [[22995, 21517], [30003, 35531, 20154], [20351, 29992, 32773], [23458, 25142],
      [21517, 23383]]"

definition keywordAlt :: re where
  "keywordAlt =
     Alt (Lit [22995, 21517]) (Alt (Lit [30003, 35531, 20154]) (Alt (Lit [20351, 29992, 32773])
       (Alt (Lit [23458, 25142]) (Lit [21517, 23383]))))"

definition cjk_ranges :: "(rune \<times> rune) list" where
  "cjk_ranges = [(19968, 40959)]"

definition namePattern :: re where
  "namePattern =
     Cat (Grp 1 (cats [keywordAlt, Cls [(58, 58), (65306, 65306)], Rep (Cls space_ranges) 0 None]))
         (Grp 2 (Rep (Cls cjk_ranges) 2 (Some 4)))"

section \<open>MaskPII\<close>

text \<open>The function literal passed to \<^verbatim>\<open>namePattern.ReplaceAllStringFunc\<close>.\<close>

definition name_repl :: "gostr \<Rightarrow> gostr" where
  "name_repl match =
     (let subs = FindStringSubmatch namePattern match
      in if length subs < 3 then maskRunes match
         else subs ! 1 @ maskRunes (subs ! 2))"

text \<open>
  The loop \<^verbatim>\<open>for _, p := range simplePatterns { text = p.ReplaceAllStringFunc(text, maskRunes) }\<close>
  and then the pass of the name pattern.
\<close>

definition mask_simple :: "re list \<Rightarrow> gostr \<Rightarrow> gostr" where
  "mask_simple ps txt = foldl (\<lambda>t p. ReplaceAllStringFunc p t maskRunes) txt ps"

definition MaskPII :: "gostr \<Rightarrow> gostr" where
  "MaskPII txt = ReplaceAllStringFunc namePattern (mask_simple simplePatterns txt) name_repl"

section \<open>Notions for stating the properties\<close>

text \<open>
  \<open>accepts r c\<close>: by the syntax of \<open>r\<close>, the rune \<open>c\<close> can occur in a match of \<open>r\<close>.
  \<open>reads A st st'\<close>: from \<open>st\<close> to \<open>st'\<close> the matcher has read runes that satisfy \<open>A\<close>, and the
  rune before the position has moved along.
\<close>

primrec accepts :: "re \<Rightarrow> rune \<Rightarrow> bool" where
  "accepts Eps c = False"
| "accepts (Lit w) c = (c \<in> set w)"
| "accepts (Cls rs) c = in_ranges rs c"
| "accepts (NCls rs) c = (\<not> in_ranges rs c)"
| "accepts (Cat r1 r2) c = (accepts r1 c \<or> accepts r2 c)"
| "accepts (Alt r1 r2) c = (accepts r1 c \<or> accepts r2 c)"
| "accepts (Rep r mn mx) c = accepts r c"
| "accepts WordB c = False"
| "accepts (Grp i r) c = accepts r c"

definition reads :: "(rune \<Rightarrow> bool) \<Rightarrow> mstate \<Rightarrow> mstate \<Rightarrow> bool" where
  "reads A st st' =
     (\<exists>m. rest_of st = m @ rest_of st' \<and>
          fst st' = (if m = [] then fst st else Some (last m)) \<and> (\<forall>c\<in>set m. A c))"

text \<open>\<open>b\<close> is \<open>a\<close> with some of its runes replaced by the mask character.\<close>

definition masks_of :: "gostr \<Rightarrow> gostr \<Rightarrow> bool" where
  "masks_of a b = list_all2 (\<lambda>x y. y = x \<or> y = star) a b"

text \<open>
  The step of a character class; the rune before the position after reading \<open>m\<close>; a
  number of rounds within the upper bound of a loop; and \<open>first r st x\<close>: the first
  match of \<open>r\<close> from \<open>st\<close> ends in \<open>x\<close>.
\<close>

definition one :: "(rune \<Rightarrow> bool) \<Rightarrow> mstate \<Rightarrow> mstate list" where
  "one P st = (case st of (p, s, g) \<Rightarrow>
       (case s of [] \<Rightarrow> [] | c # cs \<Rightarrow> if P c then [(Some c, cs, g)] else []))"

definition ctx :: "rune option \<Rightarrow> gostr \<Rightarrow> rune option" where
  "ctx p m = (if m = [] then p else Some (last m))"

definition within :: "nat \<Rightarrow> nat option \<Rightarrow> bool" where
  "within n mx = (case mx of None \<Rightarrow> True | Some k \<Rightarrow> n \<le> k)"

definition first :: "re \<Rightarrow> mstate \<Rightarrow> mstate \<Rightarrow> bool" where
  "first r st x = (case rmatch r st of [] \<Rightarrow> False | y # ys \<Rightarrow> y = x)"

text \<open>The first capturing group of \<open>namePattern\<close>.\<close>

definition name_prefix :: re where
  "name_prefix = Cat keywordAlt (Cat (Cls [(58, 58), (65306, 65306)]) (Rep (Cls space_ranges) 0 None))"

text \<open>
  \<open>reads_ex Q st st'\<close>: from \<open>st\<close> to \<open>st'\<close> the matcher has read a rune that satisfies \<open>Q\<close>.
  \<open>needs qs r\<close>: by its syntax, every match of \<open>r\<close> contains a rune of the ranges \<open>qs\<close>.
\<close>

definition reads_ex :: "(rune \<Rightarrow> bool) \<Rightarrow> mstate \<Rightarrow> mstate \<Rightarrow> bool" where
  "reads_ex Q st st' = (\<exists>m. rest_of st = m @ rest_of st' \<and> (\<exists>c\<in>set m. Q c))"

fun covered :: "(rune \<times> rune) list \<Rightarrow> rune \<times> rune \<Rightarrow> bool" where
  "covered qs (lo, hi) = list_ex (\<lambda>(a, b). a \<le> lo \<and> hi \<le> b) qs"

primrec needs :: "(rune \<times> rune) list \<Rightarrow> re \<Rightarrow> bool" where
  "needs qs Eps = False"
| "needs qs (Lit w) = list_ex (in_ranges qs) w"
| "needs qs (Cls rs) = list_all (covered qs) rs"
| "needs qs (NCls rs) = False"
| "needs qs (Cat r1 r2) = (needs qs r1 \<or> needs qs r2)"
| "needs qs (Alt r1 r2) = (needs qs r1 \<and> needs qs r2)"
| "needs qs (Rep r mn mx) = (0 < mn \<and> needs qs r)"
| "needs qs WordB = False"
| "needs qs (Grp i r) = needs qs r"

text \<open>The pipeline of \<open>MaskPII\<close> with the whole-match rules \<open>ps\<close> in place of \<open>simplePatterns\<close>.\<close>

definition mask_with :: "re list \<Rightarrow> gostr \<Rightarrow> gostr" where
  "mask_with ps txt = ReplaceAllStringFunc namePattern (mask_simple ps txt) name_repl"

text \<open>
  \<open>bearer_word b\<close>: \<^verbatim>\<open>(?i)Bearer\<close> matches \<open>b\<close>. \<open>bearer_before pre\<close>: the text \<open>pre\<close> ends
  with such a word, white space and a run, possibly empty, of runes that are not white
  space. \<open>bearer_letters\<close> is the part \<^verbatim>\<open>(?i)Bearer\<close> of the pattern.
\<close>

definition bearer_word :: "gostr \<Rightarrow> bool" where
  "bearer_word b =
     list_all2 in_ranges
       [[(66, 66), (98, 98)], [(69, 69), (101, 101)], [(65, 65), (97, 97)],
        [(82, 82), (114, 114)], [(69, 69), (101, 101)], [(82, 82), (114, 114)]] b"

definition bearer_before :: "gostr \<Rightarrow> bool" where
  "bearer_before pre =
     (let r1 = dropWhile (\<lambda>c. \<not> in_ranges space_ranges c) (rev pre);
          r2 = dropWhile (in_ranges space_ranges) r1
      in r1 \<noteq> r2 \<and> bearer_word (rev (take 6 r2)))"

definition bearer_letters :: re where
  "bearer_letters = cats
     [Cls [(66, 66), (98, 98)], Cls [(69, 69), (101, 101)], Cls [(65, 65), (97, 97)],
      Cls [(82, 82), (114, 114)], Cls [(69, 69), (101, 101)], Cls [(82, 82), (114, 114)]]"

text \<open>
  \<open>nonnull r\<close>: by its syntax, \<open>r\<close> reads at least one rune in every match.
  \<open>loops_nonnull r\<close>: the body of every loop in \<open>r\<close> does.
\<close>

primrec nonnull :: "re \<Rightarrow> bool" where
  "nonnull Eps = False"
| "nonnull (Lit w) = (w \<noteq> [])"
| "nonnull (Cls rs) = True"
| "nonnull (NCls rs) = True"
| "nonnull (Cat r1 r2) = (nonnull r1 \<or> nonnull r2)"
| "nonnull (Alt r1 r2) = (nonnull r1 \<and> nonnull r2)"
| "nonnull (Rep r mn mx) = (0 < mn \<and> nonnull r)"
| "nonnull WordB = False"
| "nonnull (Grp i r) = nonnull r"

primrec loops_nonnull :: "re \<Rightarrow> bool" where
  "loops_nonnull Eps = True"
| "loops_nonnull (Lit w) = True"
| "loops_nonnull (Cls rs) = True"
| "loops_nonnull (NCls rs) = True"
| "loops_nonnull (Cat r1 r2) = (loops_nonnull r1 \<and> loops_nonnull r2)"
| "loops_nonnull (Alt r1 r2) = (loops_nonnull r1 \<and> loops_nonnull r2)"
| "loops_nonnull (Rep r mn mx) = (nonnull r \<and> loops_nonnull r)"
| "loops_nonnull WordB = True"
| "loops_nonnull (Grp i r) = loops_nonnull r"

text \<open>
  \<open>name_before pre\<close>: the text \<open>pre\<close> ends with a keyword, a separator, white space (possibly
  none) and at most three ideographs.
\<close>

definition name_before :: "gostr \<Rightarrow> bool" where
  "name_before pre =
     (let r1 = dropWhile (in_ranges cjk_ranges) (rev pre);
          r2 = dropWhile (in_ranges space_ranges) r1
      in length pre \<le> length r1 + 3 \<and>
         (case r2 of
            [] \<Rightarrow> False
          | s # r3 \<Rightarrow> (s = 58 \<or> s = 65306) \<and>
                     list_ex (\<lambda>kw. take (length kw) r3 = rev kw) nameKeywords))"


text \<open>
  \<open>pass_input k txt\<close>: the text that the pass of the whole-match rule number \<open>k + 1\<close> searches
  in a run of \<open>MaskPII\<close> on \<open>txt\<close>, which is \<open>txt\<close> after the first \<open>k\<close> passes of the loop.
  \<open>spans n segs\<close>: the matches of a search as pairs of offset and length in code points,
  where the search began at offset \<open>n\<close>. \<open>pass_spans k txt\<close>: the spans that the pass of rule
  \<open>k + 1\<close> replaces in a run on \<open>txt\<close>. No pass changes the number of code points, so the
  offsets of all passes refer to the same positions of the text.
\<close>

definition pass_input :: "nat \<Rightarrow> gostr \<Rightarrow> gostr" where
  "pass_input k txt = mask_simple (take k simplePatterns) txt"

fun spans :: "nat \<Rightarrow> seg list \<Rightarrow> (nat \<times> nat) list" where
  "spans n [] = []"
| "spans n (Keep c # segs) = spans (Suc n) segs"
| "spans n (Hit m # segs) = (n, length m) # spans (n + length m) segs"

definition pass_spans :: "nat \<Rightarrow> gostr \<Rightarrow> (nat \<times> nat) list" where
  "pass_spans k txt = spans 0 (scan (simplePatterns ! k) None (pass_input k txt))"

text \<open>
  What \<^verbatim>\<open>\b\<close> sees of the text around a position: whether the rune after it (\<open>wclass\<close>)
  and the rune before it (\<open>pclass\<close>) are ASCII word characters. \<open>has_wb r\<close>: \<^verbatim>\<open>\b\<close> occurs
  in \<open>r\<close>; \<open>starts_wb r\<close> and \<open>ends_wb r\<close>: \<open>r\<close> begins, or ends, with \<^verbatim>\<open>\b\<close>.
\<close>

definition wclass :: "gostr \<Rightarrow> bool" where
  "wclass s = (case s of [] \<Rightarrow> False | c # cs \<Rightarrow> is_word c)"

definition pclass :: "rune option \<Rightarrow> bool" where
  "pclass p = (case p of None \<Rightarrow> False | Some c \<Rightarrow> is_word c)"

primrec has_wb :: "re \<Rightarrow> bool" where
  "has_wb Eps = False"
| "has_wb (Lit w) = False"
| "has_wb (Cls rs) = False"
| "has_wb (NCls rs) = False"
| "has_wb (Cat r1 r2) = (has_wb r1 \<or> has_wb r2)"
| "has_wb (Alt r1 r2) = (has_wb r1 \<or> has_wb r2)"
| "has_wb (Rep r mn mx) = has_wb r"
| "has_wb WordB = True"
| "has_wb (Grp i r) = has_wb r"

primrec starts_wb :: "re \<Rightarrow> bool" where
  "starts_wb Eps = False"
| "starts_wb (Lit w) = False"
| "starts_wb (Cls rs) = False"
| "starts_wb (NCls rs) = False"
| "starts_wb (Cat r1 r2) = starts_wb r1"
| "starts_wb (Alt r1 r2) = False"
| "starts_wb (Rep r mn mx) = False"
| "starts_wb WordB = True"
| "starts_wb (Grp i r) = starts_wb r"

primrec ends_wb :: "re \<Rightarrow> bool" where
  "ends_wb Eps = False"
| "ends_wb (Lit w) = False"
| "ends_wb (Cls rs) = False"
| "ends_wb (NCls rs) = False"
| "ends_wb (Cat r1 r2) = ends_wb r2"
| "ends_wb (Alt r1 r2) = False"
| "ends_wb (Rep r mn mx) = False"
| "ends_wb WordB = True"
| "ends_wb (Grp i r) = ends_wb r"

text \<open>
  \<open>mask_at_word s\<close>: somewhere in \<open>s\<close> a mask character stands directly before or directly
  after an ASCII word character.
\<close>

fun mask_at_word :: "gostr \<Rightarrow> bool" where
  "mask_at_word (a # b # cs) =
     ((a = star \<and> is_word b) \<or> (is_word a \<and> b = star) \<or> mask_at_word (b # cs))"
| "mask_at_word [a] = False"
| "mask_at_word [] = False"

text \<open>
  \<open>apart qs (lo, hi)\<close>: the range from \<open>lo\<close> to \<open>hi\<close> meets none of the ranges \<open>qs\<close>.
  \<open>nofirst qs r\<close>: by its syntax, \<open>r\<close> has no match that begins with a rune of the ranges
  \<open>qs\<close>, and no match of the empty text. \<open>masks_where P a b\<close>: \<open>b\<close> is \<open>a\<close> with some of its
  runes that satisfy \<open>P\<close> replaced by the mask character.
\<close>

fun apart :: "(rune \<times> rune) list \<Rightarrow> rune \<times> rune \<Rightarrow> bool" where
  "apart qs (lo, hi) = list_all (\<lambda>(a, b). hi < a \<or> b < lo) qs"

primrec nofirst :: "(rune \<times> rune) list \<Rightarrow> re \<Rightarrow> bool" where
  "nofirst qs Eps = False"
| "nofirst qs (Lit w) = (w \<noteq> [] \<and> \<not> in_ranges qs (hd w))"
| "nofirst qs (Cls rs) = list_all (apart qs) rs"
| "nofirst qs (NCls rs) = False"
| "nofirst qs (Cat r1 r2) = (nofirst qs r1 \<or> (r1 = WordB \<and> nofirst qs r2))"
| "nofirst qs (Alt r1 r2) = (nofirst qs r1 \<and> nofirst qs r2)"
| "nofirst qs (Rep r mn mx) = (0 < mn \<and> nofirst qs r)"
| "nofirst qs WordB = False"
| "nofirst qs (Grp i r) = nofirst qs r"

definition masks_where :: "(rune \<Rightarrow> bool) \<Rightarrow> gostr \<Rightarrow> gostr \<Rightarrow> bool" where
  "masks_where P a b = list_all2 (\<lambda>x y. y = x \<or> (y = star \<and> P x)) a b"


section \<open>What a match reads\<close>

lemma reads_refl: "reads A st st"
  by (simp add: reads_def)

lemma reads_one: "A c \<Longrightarrow> reads A (p, c # cs, g) (Some c, cs, g')"
  unfolding reads_def rest_of_def by (rule exI [of _ "[c]"]) simp

lemma reads_trans: "reads A a b \<Longrightarrow> reads A b c \<Longrightarrow> reads A a c"
  unfolding reads_def
  apply (elim exE conjE)
  subgoal for m1 m2
    by (rule exI [of _ "m1 @ m2"]) auto
  done

lemma reads_mono: "reads A a b \<Longrightarrow> (\<And>c. A c \<Longrightarrow> B c) \<Longrightarrow> reads B a b"
  unfolding reads_def by blast

lemma iter_rel:
  assumes refl: "\<And>a. R a a"
    and trans: "\<And>a b c. R a b \<Longrightarrow> R b c \<Longrightarrow> R a c"
  shows "(\<And>a b. b \<in> set (f a) \<Longrightarrow> R a b) \<Longrightarrow> st' \<in> set (iter f mn mx st) \<Longrightarrow> R st st'"
proof (induction f mn mx st arbitrary: st' rule: iter.induct)
  case (1 f mn mx st)
  from "1.prems"(2) consider (more) x where "mx \<noteq> Some 0" "x \<in> set (f st)"
      "length (rest_of x) < length (rest_of st)"
      "st' \<in> set (iter f (mn - 1) (map_option (\<lambda>m. m - 1) mx) x)"
    | (stop) "st' = st"
    by (subst (asm) iter.simps) (auto split: if_splits)
  then show ?case
  proof cases
    case more
    have "x \<in> set (filter (\<lambda>st'. length (rest_of st') < length (rest_of st)) (f st))"
      using more(2,3) by simp
    then have "R x st'"
      using "1.IH" [OF more(1) _ "1.prems"(1) more(4)] by blast
    moreover have "R st x" using "1.prems"(1) more(2) by blast
    ultimately show ?thesis using trans by blast
  next
    case stop
    then show ?thesis by (simp add: refl)
  qed
qed

lemma rmatch_reads: "st' \<in> set (rmatch r st) \<Longrightarrow> reads (accepts r) st st'"
proof (induction r arbitrary: st st')
  case Eps
  then show ?case by (simp add: reads_refl)
next
  case (Lit w)
  obtain p s g where st: "st = (p, s, g)" by (cases st)
  show ?case
  proof (cases "w = []")
    case True
    with Lit st show ?thesis by (simp add: reads_refl)
  next
    case False
    with Lit st have t: "take (length w) s = w" and r: "st' = (Some (last w), drop (length w) s, g)"
      by (auto split: if_splits)
    have "s = w @ drop (length w) s" using t by (metis append_take_drop_id)
    then show ?thesis using False r st
      unfolding reads_def rest_of_def by (intro exI [of _ w]) auto
  qed
next
  case (Cls rs)
  obtain p s g where st: "st = (p, s, g)" by (cases st)
  from Cls st obtain c cs where "s = c # cs" "in_ranges rs c" "st' = (Some c, cs, g)"
    by (cases s) (simp_all split: if_splits)
  then show ?case using st by (simp add: reads_one)
next
  case (NCls rs)
  obtain p s g where st: "st = (p, s, g)" by (cases st)
  from NCls st obtain c cs where "s = c # cs" "\<not> in_ranges rs c" "st' = (Some c, cs, g)"
    by (cases s) (simp_all split: if_splits)
  then show ?case using st by (simp add: reads_one)
next
  case (Cat r1 r2)
  from Cat.prems obtain x where x: "x \<in> set (rmatch r1 st)" "st' \<in> set (rmatch r2 x)"
    by auto
  have "reads (accepts (Cat r1 r2)) st x"
    by (rule reads_mono [OF Cat.IH(1) [OF x(1)]]) simp
  moreover have "reads (accepts (Cat r1 r2)) x st'"
    by (rule reads_mono [OF Cat.IH(2) [OF x(2)]]) simp
  ultimately show ?case by (rule reads_trans)
next
  case (Alt r1 r2)
  from Alt.prems have "st' \<in> set (rmatch r1 st) \<or> st' \<in> set (rmatch r2 st)" by auto
  then show ?case
  proof
    assume "st' \<in> set (rmatch r1 st)"
    then show ?thesis by (rule reads_mono [OF Alt.IH(1)]) simp
  next
    assume "st' \<in> set (rmatch r2 st)"
    then show ?thesis by (rule reads_mono [OF Alt.IH(2)]) simp
  qed
next
  case (Rep r mn mx)
  have "reads (accepts r) st st'"
  proof (rule iter_rel [where f = "rmatch r" and mn = mn and mx = mx])
    show "\<And>a. reads (accepts r) a a" by (rule reads_refl)
    show "\<And>a b c. reads (accepts r) a b \<Longrightarrow> reads (accepts r) b c \<Longrightarrow> reads (accepts r) a c"
      by (rule reads_trans)
    show "\<And>a b. b \<in> set (rmatch r a) \<Longrightarrow> reads (accepts r) a b" by (rule Rep.IH)
    show "st' \<in> set (iter (rmatch r) mn mx st)" using Rep.prems by simp
  qed
  then show ?case by simp
next
  case WordB
  then show ?case by (cases st) (simp add: reads_refl split: if_splits)
next
  case (Grp i r)
  from Grp.prems obtain x where x: "x \<in> set (rmatch r st)"
    and e: "st' = (fst x, rest_of x, (i, consumed (rest_of st) (rest_of x)) # snd (snd x))"
    by (auto simp: rest_of_def)
  have "reads (accepts r) st x" by (rule Grp.IH [OF x])
  then show ?case using e by (simp add: reads_def rest_of_def)
qed


section \<open>The division of the text by a search\<close>

lemma consumed_append: "consumed (m @ s') s' = m"
  by (simp add: consumed_def)

lemma rmatch_split:
  assumes "st' \<in> set (rmatch r (p, s, g))"
  shows "s = consumed s (rest_of st') @ rest_of st'"
    and "\<forall>c\<in>set (consumed s (rest_of st')). accepts r c"
    and "fst st' = (if consumed s (rest_of st') = [] then p else Some (last (consumed s (rest_of st'))))"
proof -
  from rmatch_reads [OF assms] obtain m where m: "s = m @ rest_of st'"
    "fst st' = (if m = [] then p else Some (last m))" "\<forall>c\<in>set m. accepts r c"
    by (auto simp: reads_def rest_of_def)
  have c: "consumed s (rest_of st') = m" by (subst m(1)) (rule consumed_append)
  show "s = consumed s (rest_of st') @ rest_of st'" using m(1) c by simp
  show "\<forall>c\<in>set (consumed s (rest_of st')). accepts r c" using m(3) c by simp
  show "fst st' = (if consumed s (rest_of st') = [] then p else Some (last (consumed s (rest_of st'))))"
    using m(2) c by simp
qed

lemma scan_src: "concat (map seg_src (scan r p s)) = s"
proof (induction r p s rule: scan.induct)
  case (1 r p)
  then show ?case by simp
next
  case (2 r p c cs)
  show ?case
  proof (cases "rmatch r (p, c # cs, [])")
    case Nil
    then show ?thesis using 2(1) by simp
  next
    case (Cons st xs)
    show ?thesis
    proof (cases "length (rest_of st) < length (c # cs)")
      case True
      have "st \<in> set (rmatch r (p, c # cs, []))" using Cons by simp
      from rmatch_split(1) [OF this]
      have "c # cs = consumed (c # cs) (rest_of st) @ rest_of st" .
      then show ?thesis using Cons True 2(2) [OF Cons True] by simp
    next
      case False
      then show ?thesis using Cons 2(3) [OF Cons False] by simp
    qed
  qed
qed

lemma scan_hit:
  "Hit m \<in> set (scan r p s) \<Longrightarrow>
     \<exists>q u st xs. rmatch r (q, m @ u, []) = st # xs \<and> rest_of st = u \<and> m \<noteq> []"
proof (induction r p s rule: scan.induct)
  case (1 r p)
  then show ?case by simp
next
  case (2 r p c cs)
  show ?case
  proof (cases "rmatch r (p, c # cs, [])")
    case Nil
    then show ?thesis using 2(1) "2.prems" by simp
  next
    case (Cons st xs)
    show ?thesis
    proof (cases "length (rest_of st) < length (c # cs)")
      case True
      have "st \<in> set (rmatch r (p, c # cs, []))" using Cons by simp
      from rmatch_split(1) [OF this]
      have e: "c # cs = consumed (c # cs) (rest_of st) @ rest_of st" .
      from "2.prems" Cons True
      consider "m = consumed (c # cs) (rest_of st)"
        | "Hit m \<in> set (scan r (Some (last (consumed (c # cs) (rest_of st)))) (rest_of st))"
        by auto
      then show ?thesis
      proof cases
        case 1
        have "m \<noteq> []" using e True 1 by (metis append_Nil less_irrefl)
        moreover have "rmatch r (p, m @ rest_of st, []) = st # xs" using Cons e 1 by simp
        ultimately show ?thesis by blast
      next
        case 2
        then show ?thesis using "2.IH"(2) [OF Cons True] by simp
      qed
    next
      case False
      then show ?thesis using Cons 2(3) [OF Cons False] "2.prems" by simp
    qed
  qed
qed

lemma scan_hit_accepts:
  assumes "Hit m \<in> set (scan r p s)"
  shows "m \<noteq> []" and "\<forall>c\<in>set m. accepts r c"
proof -
  from scan_hit [OF assms] obtain q u st xs where
    h: "rmatch r (q, m @ u, []) = st # xs" "rest_of st = u" "m \<noteq> []" by blast
  show "m \<noteq> []" by (rule h(3))
  have "st \<in> set (rmatch r (q, m @ u, []))" using h(1) by simp
  from rmatch_split(2) [OF this] show "\<forall>c\<in>set m. accepts r c"
    using h(2) by (simp add: consumed_append)
qed

lemma masks_of_refl: "masks_of a a"
  by (simp add: masks_of_def list_all2_refl)

lemma masks_of_trans: "masks_of a b \<Longrightarrow> masks_of b c \<Longrightarrow> masks_of a c"
  unfolding masks_of_def list_all2_conv_all_nth by metis

lemma masks_of_append: "masks_of a b \<Longrightarrow> masks_of c d \<Longrightarrow> masks_of (a @ c) (b @ d)"
  unfolding masks_of_def by (rule list_all2_appendI)

lemma masks_of_length: "masks_of a b \<Longrightarrow> length b = length a"
  unfolding masks_of_def by (simp add: list_all2_lengthD)

lemma masks_of_maskRunes: "masks_of m (maskRunes m)"
  by (simp add: masks_of_def maskRunes_def RuneCountInString_def list_all2_conv_all_nth)

lemma masks_of_segs:
  "(\<And>m. Hit m \<in> set segs \<Longrightarrow> masks_of m (f m)) \<Longrightarrow>
     masks_of (concat (map seg_src segs)) (concat (map (seg_out f) segs))"
proof (induction segs)
  case Nil
  then show ?case by (simp add: masks_of_refl)
next
  case (Cons sg segs)
  have "masks_of (seg_src sg) (seg_out f sg)"
    using Cons.prems by (cases sg) (simp_all add: masks_of_refl)
  moreover have "masks_of (concat (map seg_src segs)) (concat (map (seg_out f) segs))"
    using Cons by simp
  ultimately show ?case by (simp add: masks_of_append)
qed

lemma replace_masks_of:
  "(\<And>m. Hit m \<in> set (scan r None s) \<Longrightarrow> masks_of m (f m)) \<Longrightarrow>
     masks_of s (ReplaceAllStringFunc r s f)"
  unfolding ReplaceAllStringFunc_def
  using masks_of_segs [of "scan r None s" f] by (simp add: scan_src)

lemma replace_maskRunes: "masks_of s (ReplaceAllStringFunc r s maskRunes)"
  by (rule replace_masks_of) (rule masks_of_maskRunes)

lemma mask_simple_masks_of: "masks_of s (mask_simple ps s)"
proof (induction ps arbitrary: s)
  case Nil
  then show ?case by (simp add: mask_simple_def masks_of_refl)
next
  case (Cons p ps)
  have "mask_simple (p # ps) s = mask_simple ps (ReplaceAllStringFunc p s maskRunes)"
    by (simp add: mask_simple_def)
  then show ?case
    using masks_of_trans [OF replace_maskRunes Cons] by simp
qed


section \<open>Loops over a character class and first matches\<close>

lemma rmatch_Cls_one: "rmatch (Cls rs) = one (in_ranges rs)"
  by (rule ext) (simp add: one_def)

lemma rmatch_NCls_one: "rmatch (NCls rs) = one (\<lambda>c. \<not> in_ranges rs c)"
  by (rule ext) (auto simp: one_def split: list.splits prod.splits)

lemma ctx_Cons: "ctx (Some c) m = ctx p (c # m)"
  by (simp add: ctx_def)

lemma iter_one_first:
  "\<forall>c\<in>set m. P c \<Longrightarrow> mn \<le> length m \<Longrightarrow> within (length m) mx \<Longrightarrow>
   mx = Some (length m) \<or> rest = [] \<or> \<not> P (hd rest) \<Longrightarrow>
   \<exists>xs. iter (one P) mn mx (p, m @ rest, g) = (ctx p m, rest, g) # xs"
proof (induction m arbitrary: p mn mx)
  case Nil
  then have "mn = 0" by simp
  moreover have "mx \<noteq> Some 0 \<Longrightarrow> one P (p, rest, g) = []"
    using Nil.prems(4) by (cases rest) (auto simp: one_def)
  ultimately show ?case
    by (subst iter.simps) (simp add: ctx_def)
next
  case (Cons c m)
  have nz: "mx \<noteq> Some 0" using Cons.prems(3) by (auto simp: within_def)
  have f: "one P (p, (c # m) @ rest, g) = [(Some c, m @ rest, g)]"
    using Cons.prems(1) by (simp add: one_def)
  have "\<exists>xs. iter (one P) (mn - 1) (map_option (\<lambda>m. m - 1) mx) (Some c, m @ rest, g)
           = (ctx (Some c) m, rest, g) # xs"
  proof (rule Cons.IH)
    show "\<forall>c\<in>set m. P c" using Cons.prems(1) by simp
    show "mn - 1 \<le> length m" using Cons.prems(2) by simp
    show "within (length m) (map_option (\<lambda>m. m - 1) mx)"
      using Cons.prems(3) by (cases mx) (auto simp: within_def)
    show "map_option (\<lambda>m. m - 1) mx = Some (length m) \<or> rest = [] \<or> \<not> P (hd rest)"
      using Cons.prems(4) by (cases mx) auto
  qed
  then obtain xs where
    "iter (one P) (mn - 1) (map_option (\<lambda>m. m - 1) mx) (Some c, m @ rest, g)
       = (ctx p (c # m), rest, g) # xs"
    by (auto simp: ctx_Cons [of c m p])
  then show ?case
    using nz f by (subst iter.simps) (simp add: rest_of_def)
qed

lemma iter_one_mem:
  "st' \<in> set (iter (one P) mn mx (p, s, g)) \<Longrightarrow>
   \<exists>m. s = m @ rest_of st' \<and> (\<forall>c\<in>set m. P c) \<and> mn \<le> length m \<and> within (length m) mx \<and>
       st' = (ctx p m, rest_of st', g)"
proof (induction s arbitrary: p mn mx)
  case Nil
  have "one P (p, [], g) = []" by (simp add: one_def)
  with Nil have "mn = 0 \<and> st' = (p, [], g)"
    by (subst (asm) iter.simps) (auto split: if_splits)
  then show ?case by (auto simp: rest_of_def ctx_def within_def split: option.splits)
next
  case (Cons c cs)
  from Cons.prems consider
    (more) "mx \<noteq> Some 0" "P c"
      "st' \<in> set (iter (one P) (mn - 1) (map_option (\<lambda>m. m - 1) mx) (Some c, cs, g))"
    | (stop) "mn = 0" "st' = (p, c # cs, g)"
    by (subst (asm) iter.simps) (auto simp: one_def rest_of_def split: if_splits)
  then show ?case
  proof cases
    case more
    from Cons.IH [OF more(3)] obtain m where m: "cs = m @ rest_of st'" "\<forall>c\<in>set m. P c"
      "mn - 1 \<le> length m" "within (length m) (map_option (\<lambda>m. m - 1) mx)"
      "st' = (ctx (Some c) m, rest_of st', g)" by blast
    have "within (length (c # m)) mx"
      using m(4) more(1) by (cases mx) (auto simp: within_def)
    moreover have "mn \<le> length (c # m)" using m(3) by simp
    moreover have "st' = (ctx p (c # m), rest_of st', g)"
      using m(5) by (simp add: ctx_Cons [of c m p])
    moreover have "c # cs = (c # m) @ rest_of st'" using m(1) by simp
    moreover have "\<forall>x\<in>set (c # m). P x" using m(2) more(2) by simp
    ultimately show ?thesis by blast
  next
    case stop
    show ?thesis
      by (rule exI [of _ "[]"]) (use stop in \<open>simp add: rest_of_def ctx_def within_def split: option.splits\<close>)
  qed
qed

lemma first_Cat: "first r1 st x \<Longrightarrow> first r2 x y \<Longrightarrow> first (Cat r1 r2) st y"
  by (auto simp: first_def split: list.splits)

lemma first_Cls: "in_ranges rs c \<Longrightarrow> first (Cls rs) (p, c # s, g) (Some c, s, g)"
  by (simp add: first_def)

lemma first_Rep_Cls:
  assumes "\<forall>c\<in>set m. in_ranges rs c" "mn \<le> length m" "within (length m) mx"
    "mx = Some (length m) \<or> rest = [] \<or> \<not> in_ranges rs (hd rest)"
  shows "first (Rep (Cls rs) mn mx) (p, m @ rest, g) (ctx p m, rest, g)"
  using iter_one_first [of m "in_ranges rs" mn mx rest p g] assms
  by (auto simp: first_def rmatch_Cls_one)

lemma first_Rep_NCls:
  assumes "\<forall>c\<in>set m. \<not> in_ranges rs c" "mn \<le> length m" "within (length m) mx"
    "mx = Some (length m) \<or> rest = [] \<or> in_ranges rs (hd rest)"
  shows "first (Rep (NCls rs) mn mx) (p, m @ rest, g) (ctx p m, rest, g)"
  using iter_one_first [of m "\<lambda>c. \<not> in_ranges rs c" mn mx rest p g] assms
  by (auto simp: first_def rmatch_NCls_one)

lemma first_Grp:
  "first r (p, s, g) (p', s', g') \<Longrightarrow> first (Grp i r) (p, s, g) (p', s', (i, consumed s s') # g')"
  by (auto simp: first_def rest_of_def split: list.splits)

lemma mem_Rep_Cls:
  assumes "(p', s', g') \<in> set (rmatch (Rep (Cls rs) mn mx) (p, s, g))"
  shows "\<exists>m. s = m @ s' \<and> (\<forall>c\<in>set m. in_ranges rs c) \<and> mn \<le> length m \<and>
             within (length m) mx \<and> p' = ctx p m \<and> g' = g"
  using iter_one_mem [of "(p', s', g')" "in_ranges rs" mn mx p s g] assms
  by (auto simp: rmatch_Cls_one rest_of_def)

lemma mem_Rep_NCls:
  assumes "(p', s', g') \<in> set (rmatch (Rep (NCls rs) mn mx) (p, s, g))"
  shows "\<exists>m. s = m @ s' \<and> (\<forall>c\<in>set m. \<not> in_ranges rs c) \<and> mn \<le> length m \<and>
             within (length m) mx \<and> p' = ctx p m \<and> g' = g"
  using iter_one_mem [of "(p', s', g')" "\<lambda>c. \<not> in_ranges rs c" mn mx p s g] assms
  by (auto simp: rmatch_NCls_one rest_of_def)

lemma mem_Lit:
  "w \<noteq> [] \<Longrightarrow> (p', s', g') \<in> set (rmatch (Lit w) (p, s, g)) \<Longrightarrow>
     s = w @ s' \<and> p' = Some (last w) \<and> g' = g"
  by (auto split: if_splits) (metis append_take_drop_id)

lemma mem_Cls:
  "(p', s', g') \<in> set (rmatch (Cls rs) (p, s, g)) \<Longrightarrow>
     \<exists>c. s = c # s' \<and> in_ranges rs c \<and> p' = Some c \<and> g' = g"
  by (cases s) (auto split: if_splits)

lemma mem_Grp:
  "(p', s', g') \<in> set (rmatch (Grp i r) (p, s, g)) \<Longrightarrow>
     \<exists>g''. (p', s', g'') \<in> set (rmatch r (p, s, g)) \<and> g' = (i, consumed s s') # g''"
  by (auto simp: rest_of_def)

lemma mem_Cat:
  "y \<in> set (rmatch (Cat r1 r2) st) \<Longrightarrow> \<exists>x\<in>set (rmatch r1 st). y \<in> set (rmatch r2 x)"
  by auto


section \<open>The search at a given place of the text\<close>

lemma ctx_append: "m \<noteq> [] \<Longrightarrow> ctx (Some (last m)) v = ctx p (m @ v)"
  by (simp add: ctx_def)

lemma scan_prefix:
  assumes "\<And>u v q st xs. pre = u @ v \<Longrightarrow> v \<noteq> [] \<Longrightarrow>
             rmatch r (q, v @ rest, []) = st # xs \<Longrightarrow> length rest \<le> length (rest_of st)"
  shows "\<exists>X. scan r p (pre @ rest) = X @ scan r (ctx p pre) rest \<and> concat (map seg_src X) = pre"
  using assms
proof (induction "length pre" arbitrary: pre p rule: less_induct)
  case less
  show ?case
  proof (cases pre)
    case Nil
    then show ?thesis by (simp add: ctx_def)
  next
    case (Cons c cs)
    have keep: "\<exists>X. Keep c # scan r (Some c) (cs @ rest) = X @ scan r (ctx p pre) rest \<and>
        concat (map seg_src X) = pre"
    proof -
      have "\<exists>X. scan r (Some c) (cs @ rest) = X @ scan r (ctx (Some c) cs) rest \<and>
          concat (map seg_src X) = cs"
      proof (rule less.hyps)
        show "length cs < length pre" using Cons by simp
        fix u v q st xs
        assume "cs = u @ v" "v \<noteq> []" "rmatch r (q, v @ rest, []) = st # xs"
        then show "length rest \<le> length (rest_of st)"
          using less.prems [of "c # u" v q st xs] Cons by simp
      qed
      then obtain X where X: "scan r (Some c) (cs @ rest) = X @ scan r (ctx (Some c) cs) rest"
        "concat (map seg_src X) = cs" by blast
      show ?thesis
        by (rule exI [of _ "Keep c # X"]) (use X Cons in \<open>simp add: ctx_Cons [of c cs p]\<close>)
    qed
    show ?thesis
    proof (cases "rmatch r (p, pre @ rest, [])")
      case Nil
      then show ?thesis using keep Cons by simp
    next
      case (Cons st xs)
      note m = Cons
      show ?thesis
      proof (cases "length (rest_of st) < length (pre @ rest)")
        case False
        then show ?thesis using keep m \<open>pre = c # cs\<close> by simp
      next
        case True
        have mem: "st \<in> set (rmatch r (p, pre @ rest, []))" using m by simp
        define h where "h = consumed (pre @ rest) (rest_of st)"
        from rmatch_split(1) [OF mem] have e: "pre @ rest = h @ rest_of st" by (simp add: h_def)
        have hz: "h \<noteq> []" using e True by auto
        have "length rest \<le> length (rest_of st)"
          using less.prems [of "[]" pre p st xs] m \<open>pre = c # cs\<close> by simp
        with e obtain v where v: "pre = h @ v" "rest_of st = v @ rest"
          by (auto simp: append_eq_append_conv2)
        have "\<exists>X. scan r (Some (last h)) (v @ rest) = X @ scan r (ctx (Some (last h)) v) rest \<and>
            concat (map seg_src X) = v"
        proof (rule less.hyps)
          show "length v < length pre" using v(1) hz by simp
          fix u w q st' xs'
          assume "v = u @ w" "w \<noteq> []" "rmatch r (q, w @ rest, []) = st' # xs'"
          then show "length rest \<le> length (rest_of st')"
            using less.prems [of "h @ u" w q st' xs'] v(1) by simp
        qed
        then obtain X where X: "scan r (Some (last h)) (v @ rest)
            = X @ scan r (ctx (Some (last h)) v) rest" "concat (map seg_src X) = v" by blast
        have "scan r p (pre @ rest) = Hit h # scan r (Some (last h)) (rest_of st)"
          using m True \<open>pre = c # cs\<close> by (simp add: h_def)
        then have "scan r p (pre @ rest) = (Hit h # X) @ scan r (ctx p pre) rest"
          using X(1) v ctx_append [OF hz, of v p] by simp
        moreover have "concat (map seg_src (Hit h # X)) = pre" using X(2) v(1) by simp
        ultimately show ?thesis by blast
      qed
    qed
  qed
qed

lemma scan_first:
  assumes "first r (p, m @ rest, []) (p', rest, g')" "m \<noteq> []"
  shows "scan r p (m @ rest) = Hit m # scan r (Some (last m)) rest"
proof -
  from assms(1) obtain xs where x: "rmatch r (p, m @ rest, []) = (p', rest, g') # xs"
    by (auto simp: first_def split: list.splits)
  obtain c cs where m: "m = c # cs" using assms(2) by (cases m) auto
  have "consumed (m @ rest) rest = m" by (rule consumed_append)
  then show ?thesis using x m by (simp add: rest_of_def)
qed

lemma scan_cut:
  "(\<exists>X. concat (map seg_src X) = pre \<and> scan r q (pre @ rest) = X @ scan r (ctx q pre) rest) \<or>
   (\<exists>X u v w st xs. pre = concat (map seg_src X) @ u \<and> u \<noteq> [] \<and> v \<noteq> [] \<and> rest = v @ w \<and>
       scan r q (pre @ rest) = X @ Hit (u @ v) # scan r (Some (last (u @ v))) w \<and>
       rmatch r (ctx q (concat (map seg_src X)), u @ v @ w, []) = st # xs \<and> rest_of st = w)"
proof (induction "length pre" arbitrary: pre q rule: less_induct)
  case less
  let ?A = "\<lambda>pre q. \<exists>X. concat (map seg_src X) = pre \<and>
      scan r q (pre @ rest) = X @ scan r (ctx q pre) rest"
  let ?B = "\<lambda>pre q. \<exists>X u v w st xs. pre = concat (map seg_src X) @ u \<and> u \<noteq> [] \<and> v \<noteq> [] \<and>
       rest = v @ w \<and>
       scan r q (pre @ rest) = X @ Hit (u @ v) # scan r (Some (last (u @ v))) w \<and>
       rmatch r (ctx q (concat (map seg_src X)), u @ v @ w, []) = st # xs \<and> rest_of st = w"
  have step: "?A pre q \<or> ?B pre q"
    if sc: "scan r q (pre @ rest) = sg # scan r (Some (last (seg_src sg))) (v' @ rest)"
      and pre: "pre = seg_src sg @ v'" and nz: "seg_src sg \<noteq> []" for sg v'
  proof -
    have "length v' < length pre" using pre nz by simp
    from less [OF this, of "Some (last (seg_src sg))"]
    have "?A v' (Some (last (seg_src sg))) \<or> ?B v' (Some (last (seg_src sg)))" .
    then show ?thesis
    proof
      assume "?A v' (Some (last (seg_src sg)))"
      then obtain X where X: "concat (map seg_src X) = v'"
        "scan r (Some (last (seg_src sg))) (v' @ rest)
           = X @ scan r (ctx (Some (last (seg_src sg))) v') rest" by blast
      have "concat (map seg_src (sg # X)) = pre" using X(1) pre by simp
      moreover have "scan r q (pre @ rest) = (sg # X) @ scan r (ctx q pre) rest"
        using sc X(2) pre ctx_append [OF nz, of v' q] by simp
      ultimately have "?A pre q" by blast
      then show ?thesis ..
    next
      assume "?B v' (Some (last (seg_src sg)))"
      then obtain X u v w st xs where b: "v' = concat (map seg_src X) @ u" "u \<noteq> []" "v \<noteq> []"
        "rest = v @ w"
        "scan r (Some (last (seg_src sg))) (v' @ rest)
           = X @ Hit (u @ v) # scan r (Some (last (u @ v))) w"
        "rmatch r (ctx (Some (last (seg_src sg))) (concat (map seg_src X)), u @ v @ w, []) = st # xs"
        "rest_of st = w" by blast
      have "pre = concat (map seg_src (sg # X)) @ u" using b(1) pre by simp
      moreover have "scan r q (pre @ rest) = (sg # X) @ Hit (u @ v) # scan r (Some (last (u @ v))) w"
        using sc b(5) by simp
      moreover have "rmatch r (ctx q (concat (map seg_src (sg # X))), u @ v @ w, []) = st # xs"
        using b(6) ctx_append [OF nz, of "concat (map seg_src X)" q] by simp
      ultimately have "?B pre q" using b(2,3,4,7) by blast
      then show ?thesis ..
    qed
  qed
  show ?case
  proof (cases pre)
    case Nil
    then have "?A pre q" by (simp add: ctx_def)
    then show ?thesis ..
  next
    case (Cons c cs)
    have keep: "?A pre q \<or> ?B pre q"
      if "scan r q (pre @ rest) = Keep c # scan r (Some c) (cs @ rest)"
      using step [of "Keep c" cs] that Cons by simp
    show ?thesis
    proof (cases "rmatch r (q, pre @ rest, [])")
      case Nil
      then show ?thesis using keep Cons by simp
    next
      case (Cons st xs)
      note m = Cons
      show ?thesis
      proof (cases "length (rest_of st) < length (pre @ rest)")
        case False
        then show ?thesis using keep m \<open>pre = c # cs\<close> by simp
      next
        case True
        have mem: "st \<in> set (rmatch r (q, pre @ rest, []))" using m by simp
        define h where "h = consumed (pre @ rest) (rest_of st)"
        from rmatch_split(1) [OF mem] have e: "pre @ rest = h @ rest_of st" by (simp add: h_def)
        have hz: "h \<noteq> []" using e True by auto
        have sc: "scan r q (pre @ rest) = Hit h # scan r (Some (last h)) (rest_of st)"
          using m True \<open>pre = c # cs\<close> by (simp add: h_def)
        from append_eq_append_conv2 [THEN iffD1, OF e]
        obtain us where "(pre = h @ us \<and> us @ rest = rest_of st) \<or>
            (pre @ us = h \<and> rest = us @ rest_of st)" by blast
        then show ?thesis
        proof
          assume a: "pre = h @ us \<and> us @ rest = rest_of st"
          show ?thesis using step [of "Hit h" us] sc a hz by simp
        next
          assume a: "pre @ us = h \<and> rest = us @ rest_of st"
          show ?thesis
          proof (cases us)
            case Nil
            then show ?thesis using step [of "Hit h" "[]"] sc a hz by simp
          next
            case (Cons y ys)
            have "pre = concat (map seg_src []) @ pre" by simp
            moreover have "pre \<noteq> []" "us \<noteq> []" using \<open>pre = c # cs\<close> Cons by simp_all
            moreover have "scan r q (pre @ rest) = [] @ Hit (pre @ us) # scan r (Some (last (pre @ us))) (rest_of st)"
              using sc a by simp
            moreover have "rmatch r (ctx q (concat (map seg_src [])), pre @ us @ rest_of st, []) = st # xs"
              using m a by (simp add: ctx_def)
            ultimately have "?B pre q" using a by blast
            then show ?thesis ..
          qed
        qed
      qed
    qed
  qed
qed


section \<open>The name pattern\<close>

lemma cjk_not_space: "in_ranges cjk_ranges c \<Longrightarrow> \<not> in_ranges space_ranges c"
  by (auto simp: cjk_ranges_def space_ranges_def)

lemma consumed_append3: "consumed (a @ b # c @ d) d = a @ b # c"
  using consumed_append [of "a @ b # c" d] by simp

lemma first_keywordAlt:
  "kw \<in> set nameKeywords \<Longrightarrow> first keywordAlt (p, kw @ t, g) (Some (last kw), t, g)"
  by (auto simp: nameKeywords_def keywordAlt_def first_def)

lemma mem_keywordAlt:
  assumes "(p', s', g') \<in> set (rmatch keywordAlt (p, s, g))"
  shows "\<exists>kw\<in>set nameKeywords. s = kw @ s' \<and> g' = g"
proof -
  from assms consider
      "(p', s', g') \<in> set (rmatch (Lit [22995, 21517]) (p, s, g))"
    | "(p', s', g') \<in> set (rmatch (Lit [30003, 35531, 20154]) (p, s, g))"
    | "(p', s', g') \<in> set (rmatch (Lit [20351, 29992, 32773]) (p, s, g))"
    | "(p', s', g') \<in> set (rmatch (Lit [23458, 25142]) (p, s, g))"
    | "(p', s', g') \<in> set (rmatch (Lit [21517, 23383]) (p, s, g))"
    unfolding keywordAlt_def rmatch.simps(6) set_append by blast
  then show ?thesis
  proof cases
    case 1
    from mem_Lit [OF _ this] show ?thesis by (simp add: nameKeywords_def)
  next
    case 2
    from mem_Lit [OF _ this] show ?thesis by (simp add: nameKeywords_def)
  next
    case 3
    from mem_Lit [OF _ this] show ?thesis by (simp add: nameKeywords_def)
  next
    case 4
    from mem_Lit [OF _ this] show ?thesis by (simp add: nameKeywords_def)
  next
    case 5
    from mem_Lit [OF _ this] show ?thesis by (simp add: nameKeywords_def)
  qed
qed

lemma namePattern_eq:
  "namePattern = Cat (Grp 1 name_prefix) (Grp 2 (Rep (Cls cjk_ranges) 2 (Some 4)))"
  by (simp add: namePattern_def name_prefix_def)

lemma name_mem:
  assumes "(p', s', g') \<in> set (rmatch namePattern (p, s, g))"
  shows "\<exists>kw sep ws nm. kw \<in> set nameKeywords \<and> (sep = 58 \<or> sep = 65306) \<and>
           (\<forall>c\<in>set ws. in_ranges space_ranges c) \<and> (\<forall>c\<in>set nm. in_ranges cjk_ranges c) \<and>
           2 \<le> length nm \<and> length nm \<le> 4 \<and> s = kw @ sep # ws @ nm @ s' \<and>
           g' = (2, nm) # (1, kw @ sep # ws) # g"
proof -
  from mem_Cat [OF assms [unfolded namePattern_eq]]
  obtain p1 s1 g1 where x: "(p1, s1, g1) \<in> set (rmatch (Grp 1 name_prefix) (p, s, g))"
    and y: "(p', s', g') \<in> set (rmatch (Grp 2 (Rep (Cls cjk_ranges) 2 (Some 4))) (p1, s1, g1))"
    by (metis prod_cases3)
  from mem_Grp [OF x] obtain g0 where g0: "(p1, s1, g0) \<in> set (rmatch name_prefix (p, s, g))"
    and g1: "g1 = (1, consumed s s1) # g0" by blast
  from mem_Cat [OF g0 [unfolded name_prefix_def]]
  obtain p2 s2 g2 where k: "(p2, s2, g2) \<in> set (rmatch keywordAlt (p, s, g))"
    and r2: "(p1, s1, g0) \<in> set (rmatch (Cat (Cls [(58, 58), (65306, 65306)])
               (Rep (Cls space_ranges) 0 None)) (p2, s2, g2))"
    by (metis prod_cases3)
  from mem_keywordAlt [OF k] obtain kw where kw: "kw \<in> set nameKeywords" "s = kw @ s2" "g2 = g"
    by blast
  from mem_Cat [OF r2]
  obtain p3 s3 g3 where c: "(p3, s3, g3) \<in> set (rmatch (Cls [(58, 58), (65306, 65306)]) (p2, s2, g2))"
    and w: "(p1, s1, g0) \<in> set (rmatch (Rep (Cls space_ranges) 0 None) (p3, s3, g3))"
    by (metis prod_cases3)
  from mem_Cls [OF c] obtain sep where sep: "s2 = sep # s3" "in_ranges [(58, 58), (65306, 65306)] sep"
    "g3 = g2" by blast
  from mem_Rep_Cls [OF w] obtain ws where ws: "s3 = ws @ s1" "\<forall>c\<in>set ws. in_ranges space_ranges c"
    "g0 = g3" by blast
  from mem_Grp [OF y] obtain g4 where
    n: "(p', s', g4) \<in> set (rmatch (Rep (Cls cjk_ranges) 2 (Some 4)) (p1, s1, g1))"
    and g': "g' = (2, consumed s1 s') # g4" by blast
  from mem_Rep_Cls [OF n] obtain nm where nm: "s1 = nm @ s'" "\<forall>c\<in>set nm. in_ranges cjk_ranges c"
    "2 \<le> length nm" "within (length nm) (Some 4)" "g4 = g1" by blast
  have s: "s = kw @ sep # ws @ nm @ s'" using kw(2) sep(1) ws(1) nm(1) by simp
  have c1: "consumed s s1 = kw @ sep # ws"
    using consumed_append3 [of kw sep ws s1] kw(2) sep(1) ws(1) by simp
  have c2: "consumed s1 s' = nm" using nm(1) by (simp add: consumed_append)
  have "g' = (2, nm) # (1, kw @ sep # ws) # g"
    using g' c2 nm(5) g1 c1 ws(3) sep(3) kw(3) by simp
  moreover have "sep = 58 \<or> sep = 65306" using sep(2) by auto
  moreover have "length nm \<le> 4" using nm(4) by (simp add: within_def)
  ultimately show ?thesis using kw(1) ws(2) nm(2,3) s by blast
qed

lemma name_first:
  assumes kw: "kw \<in> set nameKeywords" and sep: "sep = 58 \<or> sep = 65306"
    and ws: "\<forall>c\<in>set ws. in_ranges space_ranges c"
    and nm: "\<forall>c\<in>set nm. in_ranges cjk_ranges c" "2 \<le> length nm" "length nm \<le> 4"
    and mx: "length nm = 4 \<or> rest = [] \<or> \<not> in_ranges cjk_ranges (hd rest)"
  shows "first namePattern (p, kw @ sep # ws @ nm @ rest, g)
           (Some (last nm), rest, (2, nm) # (1, kw @ sep # ws) # g)"
proof -
  have nz: "nm \<noteq> []" using nm(2) by auto
  have a: "first keywordAlt (p, kw @ sep # ws @ nm @ rest, g) (Some (last kw), sep # ws @ nm @ rest, g)"
    by (rule first_keywordAlt [OF kw])
  have b: "first (Cls [(58, 58), (65306, 65306)]) (Some (last kw), sep # ws @ nm @ rest, g)
             (Some sep, ws @ nm @ rest, g)"
    by (rule first_Cls) (use sep in auto)
  have "\<not> in_ranges space_ranges (hd (nm @ rest))"
    using nz nm(1) by (simp add: cjk_not_space)
  then have c: "first (Rep (Cls space_ranges) 0 None) (Some sep, ws @ nm @ rest, g)
             (ctx (Some sep) ws, nm @ rest, g)"
    by (intro first_Rep_Cls) (use ws in \<open>simp_all add: within_def\<close>)
  have "first name_prefix (p, kw @ sep # ws @ nm @ rest, g) (ctx (Some sep) ws, nm @ rest, g)"
    unfolding name_prefix_def by (rule first_Cat [OF a first_Cat [OF b c]])
  from first_Grp [OF this, of 1]
  have d: "first (Grp 1 name_prefix) (p, kw @ sep # ws @ nm @ rest, g)
             (ctx (Some sep) ws, nm @ rest, (1, kw @ sep # ws) # g)"
    using consumed_append3 [of kw sep ws "nm @ rest"] by simp
  have "first (Rep (Cls cjk_ranges) 2 (Some 4)) (ctx (Some sep) ws, nm @ rest, (1, kw @ sep # ws) # g)
          (ctx (ctx (Some sep) ws) nm, rest, (1, kw @ sep # ws) # g)"
    by (intro first_Rep_Cls) (use nm mx in \<open>auto simp: within_def\<close>)
  from first_Grp [OF this, of 2]
  have e: "first (Grp 2 (Rep (Cls cjk_ranges) 2 (Some 4)))
             (ctx (Some sep) ws, nm @ rest, (1, kw @ sep # ws) # g)
             (Some (last nm), rest, (2, nm) # (1, kw @ sep # ws) # g)"
    using nz by (simp add: consumed_append ctx_def)
  show ?thesis unfolding namePattern_eq by (rule first_Cat [OF d e])
qed

lemma NumSubexp_namePattern: "NumSubexp namePattern = 2"
  by (simp add: namePattern_def keywordAlt_def)

lemma name_submatch:
  assumes kw: "kw \<in> set nameKeywords" and sep: "sep = 58 \<or> sep = 65306"
    and ws: "\<forall>c\<in>set ws. in_ranges space_ranges c"
    and nm: "\<forall>c\<in>set nm. in_ranges cjk_ranges c" "2 \<le> length nm" "length nm \<le> 4"
  shows "FindStringSubmatch namePattern (kw @ sep # ws @ nm) = [kw @ sep # ws @ nm, kw @ sep # ws, nm]"
proof -
  have "first namePattern (None, kw @ sep # ws @ nm @ [], [])
           (Some (last nm), [], [(2, nm), (1, kw @ sep # ws)])"
    by (rule name_first [OF kw sep ws nm]) simp
  then obtain xs where "rmatch namePattern (None, kw @ sep # ws @ nm, []) =
      (Some (last nm), [], [(2, nm), (1, kw @ sep # ws)]) # xs"
    by (auto simp: first_def split: list.splits)
  then have "find_first namePattern None (kw @ sep # ws @ nm) =
      Some (kw @ sep # ws @ nm, [(2, nm), (1, kw @ sep # ws)])"
    by (subst find_first.simps) (simp add: rest_of_def consumed_def)
  then show ?thesis
    by (simp add: FindStringSubmatch_def NumSubexp_namePattern group_text_def upt_rec)
qed

lemma name_repl_shape:
  assumes kw: "kw \<in> set nameKeywords" and sep: "sep = 58 \<or> sep = 65306"
    and ws: "\<forall>c\<in>set ws. in_ranges space_ranges c"
    and nm: "\<forall>c\<in>set nm. in_ranges cjk_ranges c" "2 \<le> length nm" "length nm \<le> 4"
  shows "name_repl (kw @ sep # ws @ nm) = kw @ sep # ws @ replicate (length nm) star"
  by (simp add: name_repl_def name_submatch [OF assms] maskRunes_def RuneCountInString_def)

lemma name_hit:
  assumes "Hit m \<in> set (scan namePattern p s)"
  shows "\<exists>kw sep ws nm. kw \<in> set nameKeywords \<and> (sep = 58 \<or> sep = 65306) \<and>
           (\<forall>c\<in>set ws. in_ranges space_ranges c) \<and> (\<forall>c\<in>set nm. in_ranges cjk_ranges c) \<and>
           2 \<le> length nm \<and> length nm \<le> 4 \<and> m = kw @ sep # ws @ nm"
proof -
  from scan_hit [OF assms] obtain q u st xs where
    h: "rmatch namePattern (q, m @ u, []) = st # xs" "rest_of st = u" by blast
  obtain p' s' g' where st: "st = (p', s', g')" by (cases st)
  have "(p', s', g') \<in> set (rmatch namePattern (q, m @ u, []))" using h(1) st by simp
  from name_mem [OF this] obtain kw sep ws nm where
    n: "kw \<in> set nameKeywords" "sep = 58 \<or> sep = 65306" "\<forall>c\<in>set ws. in_ranges space_ranges c"
      "\<forall>c\<in>set nm. in_ranges cjk_ranges c" "2 \<le> length nm" "length nm \<le> 4"
      "m @ u = kw @ sep # ws @ nm @ s'" by blast
  have "s' = u" using h(2) st by (simp add: rest_of_def)
  then have "m @ u = (kw @ sep # ws @ nm) @ u" using n(7) by simp
  then have "m = kw @ sep # ws @ nm" by (simp only: append_same_eq)
  then show ?thesis using n by blast
qed

lemma name_hit_masks_of:
  assumes "Hit m \<in> set (scan namePattern p s)"
  shows "masks_of m (name_repl m)"
proof -
  from name_hit [OF assms] obtain kw sep ws nm where
    n: "kw \<in> set nameKeywords" "sep = 58 \<or> sep = 65306" "\<forall>c\<in>set ws. in_ranges space_ranges c"
      "\<forall>c\<in>set nm. in_ranges cjk_ranges c" "2 \<le> length nm" "length nm \<le> 4"
      "m = kw @ sep # ws @ nm" by blast
  have "masks_of ((kw @ sep # ws) @ nm) ((kw @ sep # ws) @ replicate (length nm) star)"
    by (rule masks_of_append [OF masks_of_refl])
       (simp add: masks_of_def list_all2_conv_all_nth)
  then show ?thesis using name_repl_shape [OF n(1-6)] n(7) by simp
qed

lemma MaskPII_masks_of: "masks_of s (MaskPII s)"
  unfolding MaskPII_def
  by (rule masks_of_trans [OF mask_simple_masks_of replace_masks_of]) (rule name_hit_masks_of)


section \<open>The pipeline\<close>

lemma replace_no_hit: "scan r None t = map Keep t \<Longrightarrow> ReplaceAllStringFunc r t f = t"
  by (simp add: ReplaceAllStringFunc_def comp_def)

lemma mask_simple_no_hit:
  "list_all (\<lambda>r. scan r None t = map Keep t) ps \<Longrightarrow> mask_simple ps t = t"
  by (induction ps) (simp_all add: mask_simple_def replace_no_hit)

lemma MaskPII_no_hit:
  assumes "list_all (\<lambda>r. scan r None t = map Keep t) (simplePatterns @ [namePattern])"
  shows "MaskPII t = t"
proof -
  have "mask_simple simplePatterns t = t"
    using assms by (intro mask_simple_no_hit) simp
  moreover have "scan namePattern None t = map Keep t" using assms by simp
  ultimately show ?thesis by (simp add: MaskPII_def replace_no_hit)
qed

lemma maskRunes_replicate: "maskRunes m = replicate (length m) star"
  by (simp add: maskRunes_def RuneCountInString_def)

lemma byte_len_stars: "byte_len (replicate n star) = n"
  by (induction n) (simp_all add: byte_len_def utf8_len_def star_def)

lemma MaskPII_mask_with: "MaskPII t = mask_with simplePatterns t"
  by (simp add: MaskPII_def mask_with_def)

lemma hit_no_star:
  assumes "\<not> accepts r star" "Hit m \<in> set (scan r p t)"
  shows "star \<notin> set m"
  using scan_hit_accepts(2) [OF assms(2)] assms(1) by blast


section \<open>Runes that every match contains\<close>

lemma covered_in_ranges: "covered qs (lo, hi) \<Longrightarrow> lo \<le> c \<Longrightarrow> c \<le> hi \<Longrightarrow> in_ranges qs c"
  by (induction qs) auto

lemma in_ranges_sub: "list_all (covered qs) rs \<Longrightarrow> in_ranges rs c \<Longrightarrow> in_ranges qs c"
proof (induction rs)
  case Nil
  then show ?case by simp
next
  case (Cons r rs)
  obtain lo hi where r: "r = (lo, hi)" by (cases r)
  from Cons.prems(2) r have "(lo \<le> c \<and> c \<le> hi) \<or> in_ranges rs c" by simp
  then show ?case
  proof
    assume "lo \<le> c \<and> c \<le> hi"
    moreover have "covered qs (lo, hi)" using Cons.prems(1) r by simp
    ultimately show ?thesis using covered_in_ranges by blast
  next
    assume "in_ranges rs c"
    then show ?thesis using Cons by simp
  qed
qed

lemma reads_ex_left: "reads_ex Q a b \<Longrightarrow> reads A b c \<Longrightarrow> reads_ex Q a c"
  unfolding reads_ex_def reads_def
  apply (elim exE conjE)
  subgoal for m1 m2
    by (rule exI [of _ "m1 @ m2"]) auto
  done

lemma reads_ex_right: "reads A a b \<Longrightarrow> reads_ex Q b c \<Longrightarrow> reads_ex Q a c"
  unfolding reads_ex_def reads_def
  apply (elim exE conjE)
  subgoal for m1 m2
    by (rule exI [of _ "m1 @ m2"]) auto
  done

lemma iter_reads: "st' \<in> set (iter (rmatch r) mn mx st) \<Longrightarrow> reads (accepts r) st st'"
proof (rule iter_rel [where f = "rmatch r" and mn = mn and mx = mx])
  show "\<And>a. reads (accepts r) a a" by (rule reads_refl)
  show "\<And>a b c. reads (accepts r) a b \<Longrightarrow> reads (accepts r) b c \<Longrightarrow> reads (accepts r) a c"
    by (rule reads_trans)
  show "\<And>a b. b \<in> set (rmatch r a) \<Longrightarrow> reads (accepts r) a b" by (rule rmatch_reads)
qed

lemma needs_reads: "needs qs r \<Longrightarrow> st' \<in> set (rmatch r st) \<Longrightarrow> reads_ex (in_ranges qs) st st'"
proof (induction r arbitrary: st st')
  case (Lit w)
  obtain p s g where st: "st = (p, s, g)" by (cases st)
  from Lit(1) have nz: "w \<noteq> []" by auto
  with Lit(2) st have "s = w @ rest_of st'"
    by (auto simp: rest_of_def split: if_splits) (metis append_take_drop_id)
  moreover have "\<exists>c\<in>set w. in_ranges qs c" using Lit(1) by (simp add: list_ex_iff)
  ultimately show ?case using st unfolding reads_ex_def by (auto simp: rest_of_def)
next
  case (Cls rs)
  obtain p s g where st: "st = (p, s, g)" by (cases st)
  from Cls(2) st obtain c cs where c: "s = c # cs" "in_ranges rs c" "st' = (Some c, cs, g)"
    by (cases s) (simp_all split: if_splits)
  have "in_ranges qs c" using Cls(1) c(2) by (simp add: in_ranges_sub)
  then show ?case using st c unfolding reads_ex_def rest_of_def
    by (intro exI [of _ "[c]"]) simp
next
  case (Cat r1 r2)
  from Cat.prems(2) obtain x where x: "x \<in> set (rmatch r1 st)" "st' \<in> set (rmatch r2 x)"
    by auto
  from Cat.prems(1) have "needs qs r1 \<or> needs qs r2" by simp
  then show ?case
  proof
    assume "needs qs r1"
    from reads_ex_left [OF Cat.IH(1) [OF this x(1)] rmatch_reads [OF x(2)]] show ?thesis .
  next
    assume "needs qs r2"
    from reads_ex_right [OF rmatch_reads [OF x(1)] Cat.IH(2) [OF this x(2)]] show ?thesis .
  qed
next
  case (Alt r1 r2)
  from Alt.prems(2) have "st' \<in> set (rmatch r1 st) \<or> st' \<in> set (rmatch r2 st)" by auto
  then show ?case
  proof
    assume "st' \<in> set (rmatch r1 st)"
    then show ?thesis using Alt.IH(1) Alt.prems(1) by simp
  next
    assume "st' \<in> set (rmatch r2 st)"
    then show ?thesis using Alt.IH(2) Alt.prems(1) by simp
  qed
next
  case (Rep r mn mx)
  from Rep.prems(1) have mn: "0 < mn" and n: "needs qs r" by simp_all
  from Rep.prems(2) have "st' \<in> set (iter (rmatch r) mn mx st)" by simp
  then obtain x where x: "x \<in> set (rmatch r st)"
    "st' \<in> set (iter (rmatch r) (mn - 1) (map_option (\<lambda>m. m - 1) mx) x)"
    using mn by (subst (asm) iter.simps) (auto split: if_splits)
  from reads_ex_left [OF Rep.IH [OF n x(1)] iter_reads [OF x(2)]] show ?case .
next
  case (Grp i r)
  from Grp.prems(2) obtain x where x: "x \<in> set (rmatch r st)" and e: "rest_of st' = rest_of x"
    by (auto simp: rest_of_def)
  from Grp.IH [OF _ x] Grp.prems(1) have "reads_ex (in_ranges qs) st x" by simp
  then show ?case using e by (simp add: reads_ex_def)
qed simp_all

lemma needs_no_match:
  assumes "needs qs r" "\<forall>c\<in>set s. \<not> in_ranges qs c"
  shows "rmatch r (p, s, g) = []"
proof (rule ccontr)
  assume "rmatch r (p, s, g) \<noteq> []"
  then obtain st' where "st' \<in> set (rmatch r (p, s, g))" by (cases "rmatch r (p, s, g)") auto
  from needs_reads [OF assms(1) this] obtain m c where "s = m @ rest_of st'" "c \<in> set m"
    "in_ranges qs c" by (auto simp: reads_ex_def rest_of_def)
  then show False using assms(2) by (metis Un_iff set_append)
qed

lemma needs_scan:
  "needs qs r \<Longrightarrow> \<forall>c\<in>set s. \<not> in_ranges qs c \<Longrightarrow> scan r p s = map Keep s"
proof (induction s arbitrary: p)
  case Nil
  then show ?case by simp
next
  case (Cons c cs)
  have "rmatch r (p, c # cs, []) = []" by (rule needs_no_match [OF Cons.prems])
  then show ?case using Cons by simp
qed

lemma needs_simple: "list_all (needs word_ranges) simplePatterns"
  by code_simp

lemma needs_name: "needs cjk_ranges namePattern"
  by code_simp

lemma no_word_unchanged:
  assumes "\<forall>c\<in>set t. \<not> is_word c"
  shows "mask_simple simplePatterns t = t"
proof (rule mask_simple_no_hit)
  have "\<forall>r\<in>set simplePatterns. needs word_ranges r"
    using needs_simple by (simp add: list_all_iff)
  moreover have "\<forall>c\<in>set t. \<not> in_ranges word_ranges c"
    using assms by (simp add: is_word_def)
  ultimately show "list_all (\<lambda>r. scan r None t = map Keep t) simplePatterns"
    unfolding list_all_iff using needs_scan by blast
qed

lemma no_word_no_cjk_unchanged:
  assumes "\<forall>c\<in>set t. \<not> is_word c" "\<forall>c\<in>set t. \<not> in_ranges cjk_ranges c"
  shows "MaskPII t = t"
  by (simp add: MaskPII_def no_word_unchanged [OF assms(1)] replace_no_hit
      needs_scan [OF needs_name assms(2)])

lemma not_accepts_star: "list_all (\<lambda>r. \<not> accepts r star) (tl simplePatterns @ [namePattern])"
  by code_simp


section \<open>No pattern matches the empty text\<close>

lemma rmatch_le: "st' \<in> set (rmatch r st) \<Longrightarrow> length (rest_of st') \<le> length (rest_of st)"
  using rmatch_reads [of st' r st] by (auto simp: reads_def)

lemma iter_le:
  "st' \<in> set (iter (rmatch r) mn mx st) \<Longrightarrow> length (rest_of st') \<le> length (rest_of st)"
  using iter_reads [of st' r mn mx st] by (auto simp: reads_def)

lemma nonnull_lt:
  "nonnull r \<Longrightarrow> st' \<in> set (rmatch r st) \<Longrightarrow> length (rest_of st') < length (rest_of st)"
proof (induction r arbitrary: st st')
  case (Lit w)
  obtain p s g where st: "st = (p, s, g)" by (cases st)
  from Lit st have "take (length w) s = w" "st' = (Some (last w), drop (length w) s, g)" "w \<noteq> []"
    by (auto split: if_splits)
  then show ?case using st by (cases s) (auto simp: rest_of_def)
next
  case (Cls rs)
  then show ?case
    by (cases st) (auto simp: rest_of_def split: list.splits if_splits)
next
  case (NCls rs)
  then show ?case
    by (cases st) (auto simp: rest_of_def split: list.splits if_splits)
next
  case (Cat r1 r2)
  from Cat.prems(2) obtain x where x: "x \<in> set (rmatch r1 st)" "st' \<in> set (rmatch r2 x)"
    by auto
  from Cat.prems(1) have "nonnull r1 \<or> nonnull r2" by simp
  then show ?case
  proof
    assume "nonnull r1"
    from Cat.IH(1) [OF this x(1)] rmatch_le [OF x(2)] show ?thesis by simp
  next
    assume "nonnull r2"
    from Cat.IH(2) [OF this x(2)] rmatch_le [OF x(1)] show ?thesis by simp
  qed
next
  case (Alt r1 r2)
  from Alt.prems(2) have "st' \<in> set (rmatch r1 st) \<or> st' \<in> set (rmatch r2 st)" by auto
  then show ?case
  proof
    assume "st' \<in> set (rmatch r1 st)"
    then show ?thesis using Alt.IH(1) Alt.prems(1) by simp
  next
    assume "st' \<in> set (rmatch r2 st)"
    then show ?thesis using Alt.IH(2) Alt.prems(1) by simp
  qed
next
  case (Rep r mn mx)
  from Rep.prems(1) have mn: "0 < mn" and n: "nonnull r" by simp_all
  from Rep.prems(2) have "st' \<in> set (iter (rmatch r) mn mx st)" by simp
  then obtain x where x: "x \<in> set (rmatch r st)"
    "st' \<in> set (iter (rmatch r) (mn - 1) (map_option (\<lambda>m. m - 1) mx) x)"
    using mn by (subst (asm) iter.simps) (auto split: if_splits)
  from Rep.IH [OF n x(1)] iter_le [OF x(2)] show ?case by simp
next
  case (Grp i r)
  from Grp.prems(2) obtain x where x: "x \<in> set (rmatch r st)" and e: "rest_of st' = rest_of x"
    by (auto simp: rest_of_def)
  from Grp.IH [OF _ x] Grp.prems(1) e show ?case by simp
qed simp_all

text \<open>
  Every pattern of the file reads at least one rune in every match, and so does the
  body of each of their loops: the search never meets a match of the empty text, and
  the loops never drop a round.
\<close>

lemma patterns_nonnull: "list_all (\<lambda>r. nonnull r \<and> loops_nonnull r) (simplePatterns @ [namePattern])"
  by code_simp

lemma pattern_match_progress:
  assumes "r \<in> set (simplePatterns @ [namePattern])" "st' \<in> set (rmatch r (p, s, g))"
  shows "length (rest_of st') < length s"
proof -
  have "nonnull r" using patterns_nonnull assms(1) unfolding list_all_iff by blast
  from nonnull_lt [OF this assms(2)] show ?thesis by (simp add: rest_of_def)
qed

lemma loop_rounds_kept:
  "nonnull r \<Longrightarrow>
     filter (\<lambda>st'. length (rest_of st') < length (rest_of st)) (rmatch r st) = rmatch r st"
  by (simp add: nonnull_lt)

section \<open>The Bearer pattern\<close>

lemma bearer_word_cases:
  "bearer_word b = (\<exists>c0 c1 c2 c3 c4 c5. b = [c0, c1, c2, c3, c4, c5] \<and>
      (c0 = 66 \<or> c0 = 98) \<and> (c1 = 69 \<or> c1 = 101) \<and> (c2 = 65 \<or> c2 = 97) \<and>
      (c3 = 82 \<or> c3 = 114) \<and> (c4 = 69 \<or> c4 = 101) \<and> (c5 = 82 \<or> c5 = 114))"
  unfolding bearer_word_def
  by (auto simp: list_all2_Cons1)

lemma first_bearer_letters:
  assumes "bearer_word b"
  shows "first bearer_letters (p, b @ s, g) (Some (last b), s, g)"
proof -
  from assms obtain c0 c1 c2 c3 c4 c5 where b: "b = [c0, c1, c2, c3, c4, c5]"
    and c: "c0 = 66 \<or> c0 = 98" "c1 = 69 \<or> c1 = 101" "c2 = 65 \<or> c2 = 97"
      "c3 = 82 \<or> c3 = 114" "c4 = 69 \<or> c4 = 101" "c5 = 82 \<or> c5 = 114"
    unfolding bearer_word_cases by blast
  have "first (Cls [(66, 66), (98, 98)]) (p, c0 # [c1, c2, c3, c4, c5] @ s, g)
      (Some c0, [c1, c2, c3, c4, c5] @ s, g)"
    by (rule first_Cls) (use c in auto)
  moreover have "first (Cls [(69, 69), (101, 101)]) (Some c0, c1 # [c2, c3, c4, c5] @ s, g)
      (Some c1, [c2, c3, c4, c5] @ s, g)"
    by (rule first_Cls) (use c in auto)
  moreover have "first (Cls [(65, 65), (97, 97)]) (Some c1, c2 # [c3, c4, c5] @ s, g)
      (Some c2, [c3, c4, c5] @ s, g)"
    by (rule first_Cls) (use c in auto)
  moreover have "first (Cls [(82, 82), (114, 114)]) (Some c2, c3 # [c4, c5] @ s, g)
      (Some c3, [c4, c5] @ s, g)"
    by (rule first_Cls) (use c in auto)
  moreover have "first (Cls [(69, 69), (101, 101)]) (Some c3, c4 # [c5] @ s, g)
      (Some c4, [c5] @ s, g)"
    by (rule first_Cls) (use c in auto)
  moreover have "first (Cls [(82, 82), (114, 114)]) (Some c4, c5 # s, g) (Some c5, s, g)"
    by (rule first_Cls) (use c in auto)
  ultimately show ?thesis
    unfolding bearer_letters_def b by (auto intro!: first_Cat)
qed

lemma mem_bearer_letters:
  assumes "(p', s', g') \<in> set (rmatch bearer_letters (p, s, g))"
  shows "\<exists>b. bearer_word b \<and> s = b @ s' \<and> g' = g"
proof -
  from mem_Cat [OF assms [unfolded bearer_letters_def cats.simps]]
  obtain p0 s0 g0 where a0: "(p0, s0, g0) \<in> set (rmatch (Cls [(66, 66), (98, 98)]) (p, s, g))"
    and r0: "(p', s', g') \<in> set (rmatch (Cat (Cls [(69, 69), (101, 101)])
        (Cat (Cls [(65, 65), (97, 97)]) (Cat (Cls [(82, 82), (114, 114)])
        (Cat (Cls [(69, 69), (101, 101)]) (Cls [(82, 82), (114, 114)]))))) (p0, s0, g0))"
    by (metis prod_cases3)
  from mem_Cat [OF r0]
  obtain p1 s1 g1 where a1: "(p1, s1, g1) \<in> set (rmatch (Cls [(69, 69), (101, 101)]) (p0, s0, g0))"
    and r1: "(p', s', g') \<in> set (rmatch (Cat (Cls [(65, 65), (97, 97)])
        (Cat (Cls [(82, 82), (114, 114)])
        (Cat (Cls [(69, 69), (101, 101)]) (Cls [(82, 82), (114, 114)])))) (p1, s1, g1))"
    by (metis prod_cases3)
  from mem_Cat [OF r1]
  obtain p2 s2 g2 where a2: "(p2, s2, g2) \<in> set (rmatch (Cls [(65, 65), (97, 97)]) (p1, s1, g1))"
    and r2: "(p', s', g') \<in> set (rmatch (Cat (Cls [(82, 82), (114, 114)])
        (Cat (Cls [(69, 69), (101, 101)]) (Cls [(82, 82), (114, 114)]))) (p2, s2, g2))"
    by (metis prod_cases3)
  from mem_Cat [OF r2]
  obtain p3 s3 g3 where a3: "(p3, s3, g3) \<in> set (rmatch (Cls [(82, 82), (114, 114)]) (p2, s2, g2))"
    and r3: "(p', s', g') \<in> set (rmatch
        (Cat (Cls [(69, 69), (101, 101)]) (Cls [(82, 82), (114, 114)])) (p3, s3, g3))"
    by (metis prod_cases3)
  from mem_Cat [OF r3]
  obtain p4 s4 g4 where a4: "(p4, s4, g4) \<in> set (rmatch (Cls [(69, 69), (101, 101)]) (p3, s3, g3))"
    and a5: "(p', s', g') \<in> set (rmatch (Cls [(82, 82), (114, 114)]) (p4, s4, g4))"
    by (metis prod_cases3)
  from mem_Cls [OF a0] obtain c0 where c0: "s = c0 # s0" "in_ranges [(66, 66), (98, 98)] c0" "g0 = g"
    by blast
  from mem_Cls [OF a1] obtain c1 where c1: "s0 = c1 # s1" "in_ranges [(69, 69), (101, 101)] c1" "g1 = g0"
    by blast
  from mem_Cls [OF a2] obtain c2 where c2: "s1 = c2 # s2" "in_ranges [(65, 65), (97, 97)] c2" "g2 = g1"
    by blast
  from mem_Cls [OF a3] obtain c3 where c3: "s2 = c3 # s3" "in_ranges [(82, 82), (114, 114)] c3" "g3 = g2"
    by blast
  from mem_Cls [OF a4] obtain c4 where c4: "s3 = c4 # s4" "in_ranges [(69, 69), (101, 101)] c4" "g4 = g3"
    by blast
  from mem_Cls [OF a5] obtain c5 where c5: "s4 = c5 # s'" "in_ranges [(82, 82), (114, 114)] c5" "g' = g4"
    by blast
  have "bearer_word [c0, c1, c2, c3, c4, c5]"
    using c0(2) c1(2) c2(2) c3(2) c4(2) c5(2) by (simp add: bearer_word_def)
  moreover have "s = [c0, c1, c2, c3, c4, c5] @ s'"
    using c0(1) c1(1) c2(1) c3(1) c4(1) c5(1) by simp
  moreover have "g' = g" using c0(3) c1(3) c2(3) c3(3) c4(3) c5(3) by simp
  ultimately show ?thesis by blast
qed

lemma concat_map_assoc:
  "concat (map f (concat (map g xs))) = concat (map (\<lambda>x. concat (map f (g x))) xs)"
  by (induction xs) simp_all

lemma rmatch_Cat_fun: "rmatch (Cat b c) = (\<lambda>x. concat (map (rmatch c) (rmatch b x)))"
  by (rule ext) simp

lemma rmatch_Cat_assoc: "rmatch (Cat (Cat a b) c) = rmatch (Cat a (Cat b c))"
  by (rule ext) (simp add: concat_map_assoc rmatch_Cat_fun)

lemma rmatch_Cat_cong: "rmatch b = rmatch b' \<Longrightarrow> rmatch (Cat a b) = rmatch (Cat a b')"
  by (rule ext) simp

lemma rmatch_bearer:
  "rmatch bearerPattern st =
     concat (map (rmatch (Cat (Rep (Cls space_ranges) 1 None) (Rep (NCls space_ranges) 1 None)))
       (rmatch bearer_letters st))"
proof -
  have "rmatch (Cat bearer_letters
          (Cat (Rep (Cls space_ranges) 1 None) (Rep (NCls space_ranges) 1 None)))
        = rmatch bearerPattern"
    unfolding bearerPattern_def bearer_letters_def cats.simps
    apply (rule trans [OF rmatch_Cat_assoc rmatch_Cat_cong])
    apply (rule trans [OF rmatch_Cat_assoc rmatch_Cat_cong])
    apply (rule trans [OF rmatch_Cat_assoc rmatch_Cat_cong])
    apply (rule trans [OF rmatch_Cat_assoc rmatch_Cat_cong])
    apply (rule rmatch_Cat_assoc)
    done
  then have "rmatch bearerPattern st = rmatch (Cat bearer_letters
          (Cat (Rep (Cls space_ranges) 1 None) (Rep (NCls space_ranges) 1 None))) st"
    by simp
  then show ?thesis by (simp only: rmatch.simps)
qed

lemma bearer_first:
  assumes b: "bearer_word b"
    and ws: "ws \<noteq> []" "\<forall>c\<in>set ws. in_ranges space_ranges c"
    and tok: "tok \<noteq> []" "\<forall>c\<in>set tok. \<not> in_ranges space_ranges c"
    and mx: "rest = [] \<or> in_ranges space_ranges (hd rest)"
  shows "first bearerPattern (p, b @ ws @ tok @ rest, g) (Some (last tok), rest, g)"
proof -
  have a: "first bearer_letters (p, b @ ws @ tok @ rest, g) (Some (last b), ws @ tok @ rest, g)"
    by (rule first_bearer_letters [OF b])
  have "\<not> in_ranges space_ranges (hd (tok @ rest))" using tok by simp
  then have c: "first (Rep (Cls space_ranges) 1 None) (Some (last b), ws @ tok @ rest, g)
      (ctx (Some (last b)) ws, tok @ rest, g)"
    by (intro first_Rep_Cls) (use ws in \<open>simp_all add: within_def Suc_le_eq\<close>)
  have d: "first (Rep (NCls space_ranges) 1 None) (ctx (Some (last b)) ws, tok @ rest, g)
      (ctx (ctx (Some (last b)) ws) tok, rest, g)"
    by (intro first_Rep_NCls) (use tok mx in \<open>simp_all add: within_def Suc_le_eq\<close>)
  have "first (Cat (Rep (Cls space_ranges) 1 None) (Rep (NCls space_ranges) 1 None))
      (Some (last b), ws @ tok @ rest, g) (Some (last tok), rest, g)"
    using first_Cat [OF c d] tok(1) by (simp add: ctx_def)
  from first_Cat [OF a this] show ?thesis
    unfolding first_def rmatch_bearer by (simp only: rmatch.simps)
qed

lemma bearer_mem:
  assumes "(p', s', g') \<in> set (rmatch bearerPattern (p, s, g))"
  shows "\<exists>b ws tok. s = b @ ws @ tok @ s' \<and> bearer_word b \<and>
           ws \<noteq> [] \<and> (\<forall>c\<in>set ws. in_ranges space_ranges c) \<and>
           tok \<noteq> [] \<and> (\<forall>c\<in>set tok. \<not> in_ranges space_ranges c)"
proof -
  from assms obtain p0 s0 g0 where l: "(p0, s0, g0) \<in> set (rmatch bearer_letters (p, s, g))"
    and r: "(p', s', g') \<in> set (rmatch (Cat (Rep (Cls space_ranges) 1 None)
         (Rep (NCls space_ranges) 1 None)) (p0, s0, g0))"
    unfolding rmatch_bearer by auto
  from mem_bearer_letters [OF l] obtain b where b: "bearer_word b" "s = b @ s0" by blast
  from mem_Cat [OF r] obtain p1 s1 g1 where
    w: "(p1, s1, g1) \<in> set (rmatch (Rep (Cls space_ranges) 1 None) (p0, s0, g0))"
    and t: "(p', s', g') \<in> set (rmatch (Rep (NCls space_ranges) 1 None) (p1, s1, g1))"
    by (metis prod_cases3)
  from mem_Rep_Cls [OF w] obtain ws where ws: "s0 = ws @ s1" "\<forall>c\<in>set ws. in_ranges space_ranges c"
    "1 \<le> length ws" by blast
  from mem_Rep_NCls [OF t] obtain tok where tok: "s1 = tok @ s'"
    "\<forall>c\<in>set tok. \<not> in_ranges space_ranges c" "1 \<le> length tok" by blast
  have "s = b @ ws @ tok @ s'" using b(2) ws(1) tok(1) by simp
  moreover have "ws \<noteq> []" "tok \<noteq> []" using ws(3) tok(3) by auto
  ultimately show ?thesis using b(1) ws(2) tok(2) by blast
qed

lemma bearer_word_props:
  assumes "bearer_word b"
  shows "b \<noteq> []" "hd b = 66 \<or> hd b = 98" "\<forall>c\<in>set (tl b). c \<noteq> 66 \<and> c \<noteq> 98"
    "\<forall>c\<in>set b. \<not> in_ranges space_ranges c" "length b = 6"
  using assms unfolding bearer_word_cases by (auto simp: space_ranges_def)

lemma bearer_before_intro:
  assumes b: "bearer_word b" and ws: "ws \<noteq> []" "\<forall>c\<in>set ws. in_ranges space_ranges c"
    and v: "\<forall>c\<in>set v. \<not> in_ranges space_ranges c"
  shows "bearer_before (u @ b @ ws @ v)"
proof -
  let ?sp = "in_ranges space_ranges"
  have r: "rev (u @ b @ ws @ v) = rev v @ (rev ws @ rev b @ rev u)" by simp
  have "dropWhile (\<lambda>c. \<not> ?sp c) (rev v @ (rev ws @ rev b @ rev u))
      = dropWhile (\<lambda>c. \<not> ?sp c) (rev ws @ rev b @ rev u)"
    by (rule dropWhile_append2) (use v in simp)
  moreover have "dropWhile (\<lambda>c. \<not> ?sp c) (rev ws @ rev b @ rev u) = rev ws @ rev b @ rev u"
  proof -
    have "rev ws \<noteq> []" using ws(1) by simp
    then obtain x xs where x: "rev ws = x # xs" by (cases "rev ws") auto
    then have "x \<in> set ws" by (metis list.set_intros(1) set_rev)
    then have "?sp x" using ws(2) by simp
    then show ?thesis using x by simp
  qed
  ultimately have r1: "dropWhile (\<lambda>c. \<not> ?sp c) (rev (u @ b @ ws @ v)) = rev ws @ rev b @ rev u"
    using r by simp
  have "dropWhile ?sp (rev ws @ (rev b @ rev u)) = dropWhile ?sp (rev b @ rev u)"
    by (rule dropWhile_append2) (use ws in simp)
  moreover have "dropWhile ?sp (rev b @ rev u) = rev b @ rev u"
  proof -
    have "rev b \<noteq> []" using bearer_word_props(1) [OF b] by simp
    then obtain x xs where x: "rev b = x # xs" by (cases "rev b") auto
    then have "x \<in> set b" by (metis list.set_intros(1) set_rev)
    then have "\<not> ?sp x" using bearer_word_props(4) [OF b] by simp
    then show ?thesis using x by simp
  qed
  ultimately have r2: "dropWhile ?sp (rev ws @ rev b @ rev u) = rev b @ rev u" by simp
  have ne: "rev ws @ rev b @ rev u \<noteq> rev b @ rev u" using ws(1) by simp
  have "take 6 (rev b @ rev u) = rev b" using bearer_word_props(5) [OF b] by simp
  then show ?thesis
    unfolding bearer_before_def Let_def r1 r2 using ne b by simp
qed

lemma bearer_straddle:
  assumes b: "bearer_word b" and v: "v \<noteq> []"
    and m: "rmatch bearerPattern (q, v @ b @ R, []) = st # xs"
    and short: "length (rest_of st) < length (b @ R)"
  shows "\<exists>b' ws' v2 t2. v = b' @ ws' @ v2 \<and> bearer_word b' \<and>
           ws' \<noteq> [] \<and> (\<forall>c\<in>set ws'. in_ranges space_ranges c) \<and>
           (\<forall>c\<in>set (v2 @ t2). \<not> in_ranges space_ranges c) \<and> b @ R = t2 @ rest_of st"
proof -
  obtain p' s' g' where st: "st = (p', s', g')" by (cases st)
  have "(p', s', g') \<in> set (rmatch bearerPattern (q, v @ b @ R, []))" using m st by simp
  from bearer_mem [OF this] obtain b' ws' tok' where
    e: "v @ b @ R = b' @ ws' @ tok' @ s'" and b': "bearer_word b'"
    and ws': "ws' \<noteq> []" "\<forall>c\<in>set ws'. in_ranges space_ranges c"
    and tok': "tok' \<noteq> []" "\<forall>c\<in>set tok'. \<not> in_ranges space_ranges c" by blast
  have s': "rest_of st = s'" using st by (simp add: rest_of_def)
  note bp = bearer_word_props [OF b]
  obtain x xs' where bx: "b = x # xs'" using bp(1) by (cases b) auto
  have xB: "x = 66 \<or> x = 98" using bp(2) bx by simp
  have xS: "\<not> in_ranges space_ranges x" using bp(4) bx by simp
  \<comment> \<open>the word of the match lies in \<open>v\<close>\<close>
  from append_eq_append_conv2 [THEN iffD1, OF e]
  obtain us where "(v = b' @ us \<and> us @ b @ R = ws' @ tok' @ s') \<or>
      (v @ us = b' \<and> b @ R = us @ ws' @ tok' @ s')"
    by blast
  then obtain v1 where v1: "v = b' @ v1" "v1 @ b @ R = ws' @ tok' @ s'"
  proof
    assume "v = b' @ us \<and> us @ b @ R = ws' @ tok' @ s'"
    then show ?thesis using that by blast
  next
    assume a: "v @ us = b' \<and> b @ R = us @ ws' @ tok' @ s'"
    show ?thesis
    proof (cases us)
      case Nil
      then show ?thesis using a that [of "[]"] by simp
    next
      case (Cons y ys)
      then have "y = x" using a bx by simp
      moreover have "y \<in> set (tl b')" using a Cons v by (cases v) auto
      ultimately show ?thesis using bearer_word_props(3) [OF b'] xB by blast
    qed
  qed
  \<comment> \<open>so does its white space\<close>
  from append_eq_append_conv2 [THEN iffD1, OF v1(2)]
  obtain us where "(v1 = ws' @ us \<and> us @ b @ R = tok' @ s') \<or>
      (v1 @ us = ws' \<and> b @ R = us @ tok' @ s')"
    by blast
  then obtain v2 where v2: "v1 = ws' @ v2" "v2 @ b @ R = tok' @ s'"
  proof
    assume "v1 = ws' @ us \<and> us @ b @ R = tok' @ s'"
    then show ?thesis using that by blast
  next
    assume a: "v1 @ us = ws' \<and> b @ R = us @ tok' @ s'"
    show ?thesis
    proof (cases us)
      case Nil
      then show ?thesis using a that [of "[]"] by simp
    next
      case (Cons y ys)
      then have "y = x" using a bx by simp
      moreover have "y \<in> set ws'" using a Cons by auto
      ultimately show ?thesis using ws'(2) xS by blast
    qed
  qed
  \<comment> \<open>and the token begins in \<open>v\<close> and ends behind it\<close>
  from append_eq_append_conv2 [THEN iffD1, OF v2(2)]
  obtain us where "(v2 = tok' @ us \<and> us @ b @ R = s') \<or>
      (v2 @ us = tok' \<and> b @ R = us @ s')"
    by blast
  then obtain t2 where t2: "v2 @ t2 = tok'" "b @ R = t2 @ s'"
  proof
    assume "v2 = tok' @ us \<and> us @ b @ R = s'"
    then have "length (b @ R) \<le> length s'" by auto
    then show ?thesis using short s' by simp
  next
    assume "v2 @ us = tok' \<and> b @ R = us @ s'"
    then show ?thesis using that by blast
  qed
  have "\<forall>c\<in>set (v2 @ t2). \<not> in_ranges space_ranges c" using t2(1) tok'(2) by simp
  moreover have "v = b' @ ws' @ v2" using v1(1) v2(1) by simp
  ultimately show ?thesis using b' ws' t2(2) s' by blast
qed

lemma bearer_no_cross:
  assumes nb: "\<not> bearer_before (u @ v)" and b: "bearer_word b" and v: "v \<noteq> []"
    and m: "rmatch bearerPattern (q, v @ b @ R, []) = st # xs"
  shows "length (b @ R) \<le> length (rest_of st)"
proof (rule ccontr)
  assume "\<not> length (b @ R) \<le> length (rest_of st)"
  then have "length (rest_of st) < length (b @ R)" by simp
  from bearer_straddle [OF b v m this] obtain b' ws' v2 t2 where
    s: "v = b' @ ws' @ v2" "bearer_word b'" "ws' \<noteq> []" "\<forall>c\<in>set ws'. in_ranges space_ranges c"
      "\<forall>c\<in>set (v2 @ t2). \<not> in_ranges space_ranges c" by blast
  have "\<forall>c\<in>set v2. \<not> in_ranges space_ranges c" using s(5) by simp
  from bearer_before_intro [OF s(2,3,4) this, of u]
  have "bearer_before (u @ v)" using s(1) by simp
  then show False using nb by simp
qed

lemma masks_of_stars: "masks_of (replicate k star) v \<Longrightarrow> v = replicate k star"
  unfolding masks_of_def list_all2_conv_all_nth
  by (intro nth_equalityI) auto

lemma masks_of_split:
  assumes "masks_of (a @ replicate k star @ c) f"
  shows "\<exists>x y. f = x @ replicate k star @ y \<and> length x = length a \<and> length y = length c"
proof -
  from assms obtain x w where x: "f = x @ w" "list_all2 (\<lambda>x y. y = x \<or> y = star) a x"
    "list_all2 (\<lambda>x y. y = x \<or> y = star) (replicate k star @ c) w"
    unfolding masks_of_def by (auto simp: list_all2_append1)
  from x(3) obtain z y where z: "w = z @ y" "list_all2 (\<lambda>x y. y = x \<or> y = star) (replicate k star) z"
    "list_all2 (\<lambda>x y. y = x \<or> y = star) c y"
    by (auto simp: list_all2_append1)
  have "z = replicate k star" using masks_of_stars z(2) by (simp add: masks_of_def)
  then have "f = x @ replicate k star @ y" using x(1) z(1) by simp
  moreover have "length x = length a" using x(2) by (simp add: list_all2_lengthD)
  moreover have "length y = length c" using z(3) by (simp add: list_all2_lengthD)
  ultimately show ?thesis by blast
qed

lemma MaskPII_after_bearer:
  "masks_of (ReplaceAllStringFunc bearerPattern t maskRunes) (MaskPII t)"
proof -
  have "mask_simple simplePatterns t
      = mask_simple (tl simplePatterns) (ReplaceAllStringFunc bearerPattern t maskRunes)"
    by (simp add: mask_simple_def simplePatterns_def)
  then have "MaskPII t = ReplaceAllStringFunc namePattern
      (mask_simple (tl simplePatterns) (ReplaceAllStringFunc bearerPattern t maskRunes)) name_repl"
    by (simp add: MaskPII_def)
  then show ?thesis
    using masks_of_trans [OF mask_simple_masks_of replace_masks_of [OF name_hit_masks_of]]
    by simp
qed

lemma bearer_scan:
  assumes b: "bearer_word b"
    and ws: "ws \<noteq> []" "\<forall>c\<in>set ws. in_ranges space_ranges c"
    and tok: "tok \<noteq> []" "\<forall>c\<in>set tok. \<not> in_ranges space_ranges c"
    and nb: "\<not> bearer_before pre"
  shows "\<exists>X. scan bearerPattern None (pre @ b @ ws @ tok @ post)
           = X @ Hit (b @ ws @ tok @ takeWhile (\<lambda>c. \<not> in_ranges space_ranges c) post)
               # scan bearerPattern
                   (Some (last (tok @ takeWhile (\<lambda>c. \<not> in_ranges space_ranges c) post)))
                   (dropWhile (\<lambda>c. \<not> in_ranges space_ranges c) post) \<and>
           concat (map seg_src X) = pre"
proof -
  let ?ns = "\<lambda>c. \<not> in_ranges space_ranges c"
  let ?tk = "tok @ takeWhile ?ns post"
  let ?rest = "dropWhile ?ns post"
  have "\<exists>X. scan bearerPattern None (pre @ (b @ ws @ tok @ post))
      = X @ scan bearerPattern (ctx None pre) (b @ ws @ tok @ post) \<and> concat (map seg_src X) = pre"
  proof (rule scan_prefix)
    fix u v q st xs
    assume "pre = u @ v" "v \<noteq> []" "rmatch bearerPattern (q, v @ b @ ws @ tok @ post, []) = st # xs"
    then show "length (b @ ws @ tok @ post) \<le> length (rest_of st)"
      using bearer_no_cross [of u v b q "ws @ tok @ post" st xs] nb b by simp
  qed
  then obtain X where X: "scan bearerPattern None (pre @ b @ ws @ tok @ post)
      = X @ scan bearerPattern (ctx None pre) (b @ ws @ tok @ post)" "concat (map seg_src X) = pre"
    by auto
  have tk: "?tk \<noteq> []" "\<forall>c\<in>set ?tk. ?ns c" using tok by (auto dest: set_takeWhileD)
  have mx: "?rest = [] \<or> in_ranges space_ranges (hd ?rest)"
    using hd_dropWhile [of ?ns post] by auto
  have "first bearerPattern (ctx None pre, b @ ws @ ?tk @ ?rest, []) (Some (last ?tk), ?rest, [])"
    by (rule bearer_first [OF b ws tk mx])
  then have "first bearerPattern (ctx None pre, (b @ ws @ ?tk) @ ?rest, []) (Some (last ?tk), ?rest, [])"
    by simp
  from scan_first [OF this]
  have "scan bearerPattern (ctx None pre) ((b @ ws @ ?tk) @ ?rest)
      = Hit (b @ ws @ ?tk) # scan bearerPattern (Some (last (b @ ws @ ?tk))) ?rest"
    using tk(1) by simp
  moreover have "(b @ ws @ ?tk) @ ?rest = b @ ws @ tok @ post" by simp
  moreover have "last (b @ ws @ ?tk) = last ?tk" using tk(1) by simp
  ultimately have "scan bearerPattern (ctx None pre) (b @ ws @ tok @ post)
      = Hit (b @ ws @ ?tk) # scan bearerPattern (Some (last ?tk)) ?rest"
    by simp
  then show ?thesis using X by auto
qed

lemma bearer_masked:
  assumes b: "bearer_word b"
    and ws: "ws \<noteq> []" "\<forall>c\<in>set ws. in_ranges space_ranges c"
    and tok: "tok \<noteq> []" "\<forall>c\<in>set tok. \<not> in_ranges space_ranges c"
    and nb: "\<not> bearer_before pre"
  shows "\<exists>X Y. MaskPII (pre @ b @ ws @ tok @ post)
           = X @ replicate (length (b @ ws @ tok)) star @ Y \<and>
           length X = length pre \<and> length Y = length post"
proof -
  let ?ns = "\<lambda>c. \<not> in_ranges space_ranges c"
  let ?t = "pre @ b @ ws @ tok @ post"
  from bearer_scan [OF assms, of post] obtain X where
    X: "scan bearerPattern None ?t
           = X @ Hit (b @ ws @ tok @ takeWhile ?ns post)
               # scan bearerPattern (Some (last (tok @ takeWhile ?ns post))) (dropWhile ?ns post)"
      "concat (map seg_src X) = pre" by blast
  define A where "A = concat (map (seg_out maskRunes) X)"
  define B where "B = concat (map (seg_out maskRunes)
      (scan bearerPattern (Some (last (tok @ takeWhile ?ns post))) (dropWhile ?ns post)))"
  have lA: "length A = length pre"
    using masks_of_length [OF masks_of_segs [of X maskRunes]] X(2)
    by (simp add: A_def masks_of_maskRunes)
  have lB: "length B = length (dropWhile ?ns post)"
    using masks_of_length [OF masks_of_segs [of _ maskRunes]]
    by (simp add: B_def masks_of_maskRunes scan_src)
  have "ReplaceAllStringFunc bearerPattern ?t maskRunes
      = A @ replicate (length (b @ ws @ tok @ takeWhile ?ns post)) star @ B"
    by (simp add: ReplaceAllStringFunc_def X(1) A_def B_def maskRunes_replicate)
  then have "masks_of (A @ replicate (length (b @ ws @ tok @ takeWhile ?ns post)) star @ B)
      (MaskPII ?t)"
    using MaskPII_after_bearer [of ?t] by simp
  from masks_of_split [OF this] obtain x y where
    f: "MaskPII ?t = x @ replicate (length (b @ ws @ tok @ takeWhile ?ns post)) star @ y"
      "length x = length A" "length y = length B" by blast
  have "replicate (length (b @ ws @ tok @ takeWhile ?ns post)) star
      = replicate (length (b @ ws @ tok)) star @ replicate (length (takeWhile ?ns post)) star"
    by (simp add: replicate_add [symmetric])
  then have "MaskPII ?t = x @ replicate (length (b @ ws @ tok)) star
      @ (replicate (length (takeWhile ?ns post)) star @ y)"
    using f(1) by simp
  moreover have "length (replicate (length (takeWhile ?ns post)) star @ y) = length post"
    using f(3) lB by (simp add: length_dropWhile_le) (metis length_append takeWhile_dropWhile_id)
  moreover have "length x = length pre" using f(2) lA by simp
  ultimately show ?thesis
    by (intro exI [of _ x] exI [of _ "replicate (length (takeWhile ?ns post)) star @ y"]) simp
qed

lemma bearer_first_rest:
  assumes "rmatch bearerPattern (q, s, []) = st # xs"
  shows "rest_of st = [] \<or> in_ranges space_ranges (hd (rest_of st))"
proof -
  let ?ns = "\<lambda>c. \<not> in_ranges space_ranges c"
  obtain p' s' g' where st: "st = (p', s', g')" by (cases st)
  have "(p', s', g') \<in> set (rmatch bearerPattern (q, s, []))" using assms st by simp
  from bearer_mem [OF this] obtain b ws tok where
    e: "s = b @ ws @ tok @ s'" and b: "bearer_word b"
    and ws: "ws \<noteq> []" "\<forall>c\<in>set ws. in_ranges space_ranges c"
    and tok: "tok \<noteq> []" "\<forall>c\<in>set tok. ?ns c" by blast
  have tk: "tok @ takeWhile ?ns s' \<noteq> []" "\<forall>c\<in>set (tok @ takeWhile ?ns s'). ?ns c"
    using tok by (auto dest: set_takeWhileD)
  have mx: "dropWhile ?ns s' = [] \<or> in_ranges space_ranges (hd (dropWhile ?ns s'))"
    using hd_dropWhile [of ?ns s'] by auto
  have "first bearerPattern (q, b @ ws @ (tok @ takeWhile ?ns s') @ dropWhile ?ns s', [])
      (Some (last (tok @ takeWhile ?ns s')), dropWhile ?ns s', [])"
    by (rule bearer_first [OF b ws tk mx])
  moreover have "b @ ws @ (tok @ takeWhile ?ns s') @ dropWhile ?ns s' = s" using e by simp
  ultimately have "s' = dropWhile ?ns s'"
    using assms st by (simp add: first_def)
  then show ?thesis using mx st by (simp add: rest_of_def)
qed

lemma bearer_scan_at:
  assumes b: "bearer_word b"
    and ws: "ws \<noteq> []" "\<forall>c\<in>set ws. in_ranges space_ranges c"
    and tok: "tok \<noteq> []" "\<forall>c\<in>set tok. \<not> in_ranges space_ranges c"
  shows "scan bearerPattern q (b @ ws @ tok @ post)
           = Hit (b @ ws @ tok @ takeWhile (\<lambda>c. \<not> in_ranges space_ranges c) post)
               # scan bearerPattern
                   (Some (last (tok @ takeWhile (\<lambda>c. \<not> in_ranges space_ranges c) post)))
                   (dropWhile (\<lambda>c. \<not> in_ranges space_ranges c) post)"
proof -
  let ?ns = "\<lambda>c. \<not> in_ranges space_ranges c"
  let ?tk = "tok @ takeWhile ?ns post"
  let ?rest = "dropWhile ?ns post"
  have tk: "?tk \<noteq> []" "\<forall>c\<in>set ?tk. ?ns c" using tok by (auto dest: set_takeWhileD)
  have mx: "?rest = [] \<or> in_ranges space_ranges (hd ?rest)"
    using hd_dropWhile [of ?ns post] by auto
  have "first bearerPattern (q, b @ ws @ ?tk @ ?rest, []) (Some (last ?tk), ?rest, [])"
    by (rule bearer_first [OF b ws tk mx])
  then have "first bearerPattern (q, (b @ ws @ ?tk) @ ?rest, []) (Some (last ?tk), ?rest, [])"
    by simp
  from scan_first [OF this]
  have "scan bearerPattern q ((b @ ws @ ?tk) @ ?rest)
      = Hit (b @ ws @ ?tk) # scan bearerPattern (Some (last (b @ ws @ ?tk))) ?rest"
    using tk(1) by simp
  moreover have "(b @ ws @ ?tk) @ ?rest = b @ ws @ tok @ post" by simp
  moreover have "last (b @ ws @ ?tk) = last ?tk" using tk(1) by simp
  ultimately show ?thesis by simp
qed

lemma out_length: "length (concat (map (seg_out maskRunes) X)) = length (concat (map seg_src X))"
  using masks_of_length [OF masks_of_segs [of X maskRunes]] by (simp add: masks_of_maskRunes)

lemma bearer_word_pass:
  assumes b: "bearer_word b"
    and ws: "ws \<noteq> []" "\<forall>c\<in>set ws. in_ranges space_ranges c"
    and tok: "tok \<noteq> []" "\<forall>c\<in>set tok. \<not> in_ranges space_ranges c"
  shows "\<exists>A B. ReplaceAllStringFunc bearerPattern (pre @ b @ ws @ tok @ post) maskRunes
           = A @ replicate (length b) star @ B \<and> length A = length pre"
proof -
  let ?ns = "\<lambda>c. \<not> in_ranges space_ranges c"
  let ?R = "ws @ tok @ post"
  from scan_cut [of pre bearerPattern None "b @ ?R"]
  consider (reach) X where "concat (map seg_src X) = pre"
      "scan bearerPattern None (pre @ b @ ?R) = X @ scan bearerPattern (ctx None pre) (b @ ?R)"
    | (cross) X u v w st xs where "pre = concat (map seg_src X) @ u" "u \<noteq> []" "v \<noteq> []"
      "b @ ?R = v @ w"
      "scan bearerPattern None (pre @ b @ ?R)
         = X @ Hit (u @ v) # scan bearerPattern (Some (last (u @ v))) w"
      "rmatch bearerPattern (ctx None (concat (map seg_src X)), u @ v @ w, []) = st # xs"
      "rest_of st = w"
    by blast
  then show ?thesis
  proof cases
    case reach
    define B where "B = replicate (length (ws @ tok @ takeWhile ?ns post)) star
        @ concat (map (seg_out maskRunes)
            (scan bearerPattern (Some (last (tok @ takeWhile ?ns post))) (dropWhile ?ns post)))"
    have "ReplaceAllStringFunc bearerPattern (pre @ b @ ws @ tok @ post) maskRunes
        = concat (map (seg_out maskRunes) X) @ replicate (length b) star @ B"
      using reach(2) bearer_scan_at [OF assms, of "ctx None pre" post]
      by (simp add: ReplaceAllStringFunc_def B_def maskRunes_replicate replicate_add)
    moreover have "length (concat (map (seg_out maskRunes) X)) = length pre"
      using out_length [of X] reach(1) by simp
    ultimately show ?thesis by blast
  next
    case cross
    have m: "rmatch bearerPattern (ctx None (concat (map seg_src X)), u @ b @ ?R, []) = st # xs"
      using cross(4,6) by simp
    have short: "length (rest_of st) < length (b @ ?R)"
      using cross(3,4,7) by (metis append_Nil length_append length_greater_0_conv less_add_same_cancel2)
    from bearer_straddle [OF b cross(2) m short] obtain b' ws' v2 t2 where
      s: "\<forall>c\<in>set (v2 @ t2). ?ns c" "b @ ?R = t2 @ rest_of st" by blast
    have "t2 = v" using s(2) cross(4,7) by simp
    then have v: "\<forall>c\<in>set v. ?ns c" using s(1) by simp
    have wsp: "w = [] \<or> in_ranges space_ranges (hd w)"
      using bearer_first_rest [OF cross(6)] cross(7) by simp
    from append_eq_append_conv2 [THEN iffD1, OF cross(4)]
    obtain us where "(b = v @ us \<and> us @ ?R = w) \<or> (b @ us = v \<and> ?R = us @ w)" by blast
    then obtain v' where v': "v = b @ v'"
    proof
      assume a: "b = v @ us \<and> us @ ?R = w"
      show ?thesis
      proof (cases us)
        case Nil
        then show ?thesis using a that [of "[]"] by simp
      next
        case (Cons y ys)
        then have "y \<in> set b" "hd w = y" "w \<noteq> []" using a by auto
        then show ?thesis using bearer_word_props(4) [OF b] wsp by auto
      qed
    next
      assume "b @ us = v \<and> ?R = us @ w"
      then show ?thesis using that [of us] by simp
    qed
    define A where "A = concat (map (seg_out maskRunes) X) @ replicate (length u) star"
    define B where "B = replicate (length v') star
        @ concat (map (seg_out maskRunes) (scan bearerPattern (Some (last (u @ v))) w))"
    have "ReplaceAllStringFunc bearerPattern (pre @ b @ ws @ tok @ post) maskRunes
        = A @ replicate (length b) star @ B"
      using cross(5) v'
      by (simp add: ReplaceAllStringFunc_def A_def B_def maskRunes_replicate replicate_add)
    moreover have "length A = length pre"
      using out_length [of X] cross(1) by (simp add: A_def)
    ultimately show ?thesis by blast
  qed
qed

lemma bearer_word_masked:
  assumes b: "bearer_word b"
    and ws: "ws \<noteq> []" "\<forall>c\<in>set ws. in_ranges space_ranges c"
    and tok: "tok \<noteq> []" "\<forall>c\<in>set tok. \<not> in_ranges space_ranges c"
  shows "\<exists>X Y. MaskPII (pre @ b @ ws @ tok @ post) = X @ replicate (length b) star @ Y \<and>
           length X = length pre"
proof -
  from bearer_word_pass [OF assms, of pre post] obtain A B where
    ab: "ReplaceAllStringFunc bearerPattern (pre @ b @ ws @ tok @ post) maskRunes
           = A @ replicate (length b) star @ B" "length A = length pre" by blast
  have "masks_of (A @ replicate (length b) star @ B) (MaskPII (pre @ b @ ws @ tok @ post))"
    using MaskPII_after_bearer [of "pre @ b @ ws @ tok @ post"] ab(1) by simp
  from masks_of_split [OF this] show ?thesis using ab(2) by auto
qed


section \<open>A keyword followed by a long run of ideographs\<close>

lemma keyword_props:
  assumes "kw \<in> set nameKeywords"
  shows "kw \<noteq> []" "\<forall>c\<in>set kw. in_ranges cjk_ranges c"
  using assms by (auto simp: nameKeywords_def cjk_ranges_def)

lemma keyword_last:
  assumes "kw \<in> set nameKeywords" "kw' \<in> set nameKeywords" "last kw' = last kw"
  shows "kw' = kw"
  using assms by (auto simp: nameKeywords_def)

lemma keyword_suffix:
  assumes "kw \<in> set nameKeywords" "v @ kw \<in> set nameKeywords"
  shows "v = []"
proof -
  have "last (v @ kw) = last kw" using keyword_props(1) [OF assms(1)] by simp
  from keyword_last [OF assms(1) assms(2) this] show ?thesis by simp
qed

lemma sep_not_cjk: "sep = 58 \<or> sep = 65306 \<Longrightarrow> \<not> in_ranges cjk_ranges sep"
  by (auto simp: cjk_ranges_def)

lemma name_out_length:
  "length (concat (map (seg_out name_repl) (scan namePattern p s))) = length s"
proof -
  have "masks_of (concat (map seg_src (scan namePattern p s)))
      (concat (map (seg_out name_repl) (scan namePattern p s)))"
    by (rule masks_of_segs) (rule name_hit_masks_of)
  from masks_of_length [OF this] show ?thesis by (simp add: scan_src)
qed

lemma name_tail:
  "\<forall>c\<in>set rem. in_ranges cjk_ranges c \<Longrightarrow>
     take (length rem) (concat (map (seg_out name_repl) (scan namePattern p (rem @ post)))) = rem"
proof (induction rem arbitrary: p)
  case Nil
  then show ?case by simp
next
  case (Cons c cs)
  have keep: "take (length (c # cs))
      (concat (map (seg_out name_repl) (Keep c # scan namePattern (Some c) (cs @ post)))) = c # cs"
    using Cons.IH [of "Some c"] Cons.prems by simp
  show ?case
  proof (cases "rmatch namePattern (p, (c # cs) @ post, [])")
    case Nil
    then show ?thesis using keep by simp
  next
    case (Cons st xs)
    note m = Cons
    show ?thesis
    proof (cases "length (rest_of st) < length ((c # cs) @ post)")
      case False
      then show ?thesis using keep m by simp
    next
      case True
      obtain p' s' g' where st: "st = (p', s', g')" by (cases st)
      have "(p', s', g') \<in> set (rmatch namePattern (p, (c # cs) @ post, []))" using m st by simp
      from name_mem [OF this] obtain kw sep ws nm where
        n: "kw \<in> set nameKeywords" "sep = 58 \<or> sep = 65306" "\<forall>c\<in>set ws. in_ranges space_ranges c"
          "\<forall>c\<in>set nm. in_ranges cjk_ranges c" "2 \<le> length nm" "length nm \<le> 4"
        and e: "(c # cs) @ post = kw @ sep # ws @ nm @ s'" by blast
      have h: "consumed ((c # cs) @ post) (rest_of st) = kw @ sep # ws @ nm"
        using e st consumed_append [of "kw @ sep # ws @ nm" s'] by (simp add: rest_of_def)
      have sc: "scan namePattern p ((c # cs) @ post)
          = Hit (kw @ sep # ws @ nm) # scan namePattern (Some (last (kw @ sep # ws @ nm))) (rest_of st)"
        using m True h by simp
      from append_eq_append_conv2 [THEN iffD1, OF e]
      obtain us where "(c # cs = kw @ us \<and> us @ post = sep # ws @ nm @ s') \<or>
          ((c # cs) @ us = kw \<and> post = us @ sep # ws @ nm @ s')" by blast
      then obtain w where w: "kw = (c # cs) @ w"
      proof
        assume a: "c # cs = kw @ us \<and> us @ post = sep # ws @ nm @ s'"
        show ?thesis
        proof (cases us)
          case Nil
          then show ?thesis using a that [of "[]"] by simp
        next
          case (Cons y ys)
          then have "y = sep" "y \<in> set (c # cs)" using a by auto
          then show ?thesis using Cons.prems sep_not_cjk [OF n(2)] by blast
        qed
      next
        assume "(c # cs) @ us = kw \<and> post = us @ sep # ws @ nm @ s'"
        then show ?thesis using that [of us] by simp
      qed
      show ?thesis
        unfolding sc using name_repl_shape [OF n] w by simp
    qed
  qed
qed

lemma sep_not_space: "sep = 58 \<or> sep = 65306 \<Longrightarrow> \<not> in_ranges space_ranges sep"
  by (auto simp: space_ranges_def)

lemma name_before_intro:
  assumes kw: "kw \<in> set nameKeywords" and sep: "sep = 58 \<or> sep = 65306"
    and ws: "\<forall>c\<in>set ws. in_ranges space_ranges c"
    and v: "\<forall>c\<in>set v. in_ranges cjk_ranges c" "length v \<le> 3"
  shows "name_before (u @ kw @ sep # ws @ v)"
proof -
  let ?cj = "in_ranges cjk_ranges"
  let ?sp = "in_ranges space_ranges"
  let ?pre = "u @ kw @ sep # ws @ v"
  have r: "rev ?pre = rev v @ (rev ws @ sep # rev kw @ rev u)" by simp
  have "dropWhile ?cj (rev v @ (rev ws @ sep # rev kw @ rev u))
      = dropWhile ?cj (rev ws @ sep # rev kw @ rev u)"
    by (rule dropWhile_append2) (use v in simp)
  moreover have "dropWhile ?cj (rev ws @ sep # rev kw @ rev u) = rev ws @ sep # rev kw @ rev u"
  proof (cases "rev ws")
    case Nil
    then show ?thesis using sep_not_cjk [OF sep] by simp
  next
    case (Cons x xs)
    then have "x \<in> set ws" by (metis list.set_intros(1) set_rev)
    then have "\<not> ?cj x" using ws cjk_not_space by blast
    then show ?thesis using Cons by simp
  qed
  ultimately have r1: "dropWhile ?cj (rev ?pre) = rev ws @ sep # rev kw @ rev u" using r by simp
  have "dropWhile ?sp (rev ws @ (sep # rev kw @ rev u)) = dropWhile ?sp (sep # rev kw @ rev u)"
    by (rule dropWhile_append2) (use ws in simp)
  then have r2: "dropWhile ?sp (rev ws @ sep # rev kw @ rev u) = sep # rev kw @ rev u"
    using sep_not_space [OF sep] by simp
  have l: "length ?pre \<le> length (rev ws @ sep # rev kw @ rev u) + 3" using v(2) by simp
  have "take (length kw) (rev kw @ rev u) = rev kw" by simp
  then have "list_ex (\<lambda>k. take (length k) (rev kw @ rev u) = rev k) nameKeywords"
    using kw unfolding list_ex_iff by blast
  then show ?thesis
    unfolding name_before_def Let_def r1 r2 using l sep by simp
qed

text \<open>
  A match of the name rule that begins before a keyword and ends behind its first rune
  has its own keyword, separator and white space before that keyword, and its name
  begins before the keyword and ends in it.
\<close>

lemma name_straddle:
  assumes kw: "kw \<in> set nameKeywords" and sep: "sep = 58 \<or> sep = 65306" and v: "v \<noteq> []"
    and m: "rmatch namePattern (q, v @ kw @ sep # R, []) = st # xs"
    and short: "length (rest_of st) < length (kw @ sep # R)"
  shows "\<exists>kw' sep' ws' v4 t2. v = kw' @ sep' # ws' @ v4 \<and> kw' \<in> set nameKeywords \<and>
           (sep' = 58 \<or> sep' = 65306) \<and> (\<forall>c\<in>set ws'. in_ranges space_ranges c) \<and>
           (\<forall>c\<in>set (v4 @ t2). in_ranges cjk_ranges c) \<and> 2 \<le> length (v4 @ t2) \<and>
           length (v4 @ t2) \<le> 4 \<and> t2 \<noteq> [] \<and> kw @ sep # R = t2 @ rest_of st"
proof -
  obtain p' s' g' where st: "st = (p', s', g')" by (cases st)
  have "(p', s', g') \<in> set (rmatch namePattern (q, v @ kw @ sep # R, []))" using m st by simp
  from name_mem [OF this] obtain kw' sep' ws' nm' where
    kw': "kw' \<in> set nameKeywords" and sep': "sep' = 58 \<or> sep' = 65306"
    and ws': "\<forall>c\<in>set ws'. in_ranges space_ranges c"
    and nm': "\<forall>c\<in>set nm'. in_ranges cjk_ranges c" "2 \<le> length nm'" "length nm' \<le> 4"
    and e: "v @ kw @ sep # R = kw' @ sep' # ws' @ nm' @ s'" by blast
  have s': "rest_of st = s'" using st by (simp add: rest_of_def)
  note k = keyword_props [OF kw] and k' = keyword_props [OF kw']
  obtain x xs' where kx: "kw = x # xs'" using k(1) by (cases kw) auto
  have xc: "in_ranges cjk_ranges x" using k(2) kx by simp
  \<comment> \<open>the keyword and the separator of the match lie in \<open>v\<close>\<close>
  from append_eq_append_conv2 [THEN iffD1, OF e]
  obtain us where "(v = kw' @ us \<and> us @ kw @ sep # R = sep' # ws' @ nm' @ s') \<or>
      (v @ us = kw' \<and> kw @ sep # R = us @ sep' # ws' @ nm' @ s')" by blast
  then obtain v3 where v3: "v = kw' @ sep' # v3" "v3 @ kw @ sep # R = ws' @ nm' @ s'"
  proof
    assume a: "v = kw' @ us \<and> us @ kw @ sep # R = sep' # ws' @ nm' @ s'"
    show ?thesis
    proof (cases us)
      case Nil
      then have "x = sep'" using a kx by simp
      then show ?thesis using xc sep_not_cjk [OF sep'] by simp
    next
      case (Cons y ys)
      then show ?thesis using a that [of ys] by simp
    qed
  next
    assume a: "v @ us = kw' \<and> kw @ sep # R = us @ sep' # ws' @ nm' @ s'"
    then have e2: "kw @ sep # R = us @ sep' # ws' @ nm' @ s'" by simp
    have us: "\<forall>c\<in>set us. in_ranges cjk_ranges c" using a k'(2) by auto
    from append_eq_append_conv2 [THEN iffD1, OF e2]
    obtain w where "(kw = us @ w \<and> w @ sep # R = sep' # ws' @ nm' @ s') \<or>
        (kw @ w = us \<and> sep # R = w @ sep' # ws' @ nm' @ s')" by blast
    then have False
    proof
      assume b: "kw = us @ w \<and> w @ sep # R = sep' # ws' @ nm' @ s'"
      show False
      proof (cases w)
        case Nil
        then have "v @ kw \<in> set nameKeywords" using a b kw' by simp
        from keyword_suffix [OF kw this] show False using v by simp
      next
        case (Cons y ys)
        then have "y = sep'" "y \<in> set kw" using b by auto
        then show False using k(2) sep_not_cjk [OF sep'] by blast
      qed
    next
      assume b: "kw @ w = us \<and> sep # R = w @ sep' # ws' @ nm' @ s'"
      show False
      proof (cases w)
        case Nil
        then have "v @ kw \<in> set nameKeywords" using a b kw' by simp
        from keyword_suffix [OF kw this] show False using v by simp
      next
        case (Cons y ys)
        then have "y = sep" "y \<in> set us" using b by auto
        then show False using us sep_not_cjk [OF sep] by blast
      qed
    qed
    then show ?thesis ..
  qed
  \<comment> \<open>so does its white space\<close>
  from append_eq_append_conv2 [THEN iffD1, OF v3(2)]
  obtain us where "(v3 = ws' @ us \<and> us @ kw @ sep # R = nm' @ s') \<or>
      (v3 @ us = ws' \<and> kw @ sep # R = us @ nm' @ s')" by blast
  then obtain v4 where v4: "v3 = ws' @ v4" "v4 @ kw @ sep # R = nm' @ s'"
  proof
    assume "v3 = ws' @ us \<and> us @ kw @ sep # R = nm' @ s'"
    then show ?thesis using that by blast
  next
    assume a: "v3 @ us = ws' \<and> kw @ sep # R = us @ nm' @ s'"
    show ?thesis
    proof (cases us)
      case Nil
      then show ?thesis using a that [of "[]"] by simp
    next
      case (Cons y ys)
      then have "y = x" "y \<in> set ws'" using a kx by auto
      then show ?thesis using ws' xc cjk_not_space by blast
    qed
  qed
  \<comment> \<open>and the name begins in \<open>v\<close> and ends behind it\<close>
  from append_eq_append_conv2 [THEN iffD1, OF v4(2)]
  obtain us where "(v4 = nm' @ us \<and> us @ kw @ sep # R = s') \<or>
      (v4 @ us = nm' \<and> kw @ sep # R = us @ s')" by blast
  then have t2: "v4 @ us = nm' \<and> kw @ sep # R = us @ s' \<and> us \<noteq> []"
  proof
    assume "v4 = nm' @ us \<and> us @ kw @ sep # R = s'"
    then have "length (kw @ sep # R) \<le> length s'" by auto
    then show ?thesis using short s' by simp
  next
    assume a: "v4 @ us = nm' \<and> kw @ sep # R = us @ s'"
    then have "us \<noteq> []" using short s' by auto
    then show ?thesis using a by simp
  qed
  have "v = kw' @ sep' # ws' @ v4" using v3(1) v4(1) by simp
  moreover have "\<forall>c\<in>set (v4 @ us). in_ranges cjk_ranges c" "2 \<le> length (v4 @ us)"
    "length (v4 @ us) \<le> 4" using t2 nm' by simp_all
  moreover have "kw @ sep # R = us @ rest_of st" using t2 s' by simp
  ultimately show ?thesis using kw' sep' ws' t2 by blast
qed

lemma name_no_cross:
  assumes nb: "\<not> name_before (u @ v)" and kw: "kw \<in> set nameKeywords"
    and sep: "sep = 58 \<or> sep = 65306" and v: "v \<noteq> []"
    and m: "rmatch namePattern (q, v @ kw @ sep # R, []) = st # xs"
  shows "length (kw @ sep # R) \<le> length (rest_of st)"
proof (rule ccontr)
  assume "\<not> length (kw @ sep # R) \<le> length (rest_of st)"
  then have short: "length (rest_of st) < length (kw @ sep # R)" by simp
  from name_straddle [OF kw sep v m short] obtain kw' sep' ws' v4 t2 where
    a: "v = kw' @ sep' # ws' @ v4" "kw' \<in> set nameKeywords" "sep' = 58 \<or> sep' = 65306"
      "\<forall>c\<in>set ws'. in_ranges space_ranges c" "\<forall>c\<in>set (v4 @ t2). in_ranges cjk_ranges c"
      "length (v4 @ t2) \<le> 4" "t2 \<noteq> []" by blast
  have "(\<forall>c\<in>set v4. in_ranges cjk_ranges c) \<and> length v4 \<le> 3"
    using a(5,6,7) by (cases t2) auto
  then have "name_before (u @ kw' @ sep' # ws' @ v4)"
    using name_before_intro [OF a(2,3,4), of v4 u] by blast
  then show False using nb a(1) by simp
qed

lemma name_run_masked:
  assumes kw: "kw \<in> set nameKeywords" and sep: "sep = 58 \<or> sep = 65306"
    and ws: "\<forall>c\<in>set ws. in_ranges space_ranges c"
    and run: "\<forall>c\<in>set run. in_ranges cjk_ranges c" "4 < length run"
    and nb: "\<not> name_before pre"
  shows "\<exists>X Y. ReplaceAllStringFunc namePattern (pre @ kw @ sep # ws @ run @ post) name_repl
           = X @ kw @ sep # ws @ replicate 4 star @ drop 4 run @ Y \<and>
           masks_of pre X \<and> length Y = length post"
proof -
  let ?nm = "take 4 run"
  let ?rem = "drop 4 run"
  let ?t = "pre @ kw @ sep # ws @ run @ post"
  have nm: "\<forall>c\<in>set ?nm. in_ranges cjk_ranges c" "2 \<le> length ?nm" "length ?nm \<le> 4"
    "length ?nm = 4"
    using run by (auto dest: in_set_takeD)
  have rem: "\<forall>c\<in>set ?rem. in_ranges cjk_ranges c" using run(1) by (auto dest: in_set_dropD)
  have "\<exists>X. scan namePattern None (pre @ (kw @ sep # ws @ run @ post))
      = X @ scan namePattern (ctx None pre) (kw @ sep # ws @ run @ post) \<and>
      concat (map seg_src X) = pre"
  proof (rule scan_prefix)
    fix u v q st xs
    assume "pre = u @ v" "v \<noteq> []"
      "rmatch namePattern (q, v @ kw @ sep # ws @ run @ post, []) = st # xs"
    then show "length (kw @ sep # ws @ run @ post) \<le> length (rest_of st)"
      using name_no_cross [of u v kw sep q "ws @ run @ post" st xs] nb kw sep by simp
  qed
  then obtain X where s1: "scan namePattern None ?t
      = X @ scan namePattern (ctx None pre) (kw @ sep # ws @ run @ post)"
    and X: "concat (map seg_src X) = pre" by auto
  define m where "m = kw @ sep # ws @ ?nm"
  have mz: "m \<noteq> []" by (simp add: m_def)
  have eq: "m @ (?rem @ post) = kw @ sep # ws @ run @ post" by (simp add: m_def)
  have "first namePattern (ctx None pre, kw @ sep # ws @ ?nm @ (?rem @ post), [])
      (Some (last ?nm), ?rem @ post, [(2, ?nm), (1, kw @ sep # ws)])"
    by (rule name_first [OF kw sep ws nm(1,2,3)]) (use nm(4) in simp)
  then have "first namePattern (ctx None pre, m @ (?rem @ post), [])
      (Some (last ?nm), ?rem @ post, [(2, ?nm), (1, kw @ sep # ws)])"
    by (simp add: m_def)
  from scan_first [OF this mz]
  have s2: "scan namePattern (ctx None pre) (kw @ sep # ws @ run @ post)
      = Hit m # scan namePattern (Some (last m)) (?rem @ post)"
    unfolding eq .
  define O1 where "O1 = concat (map (seg_out name_repl) X)"
  define O2 where "O2 = concat (map (seg_out name_repl)
      (scan namePattern (Some (last m)) (?rem @ post)))"
  have "masks_of (concat (map seg_src X)) O1"
    unfolding O1_def
  proof (rule masks_of_segs)
    fix h
    assume "Hit h \<in> set X"
    then have "Hit h \<in> set (scan namePattern None ?t)" using s1 by simp
    then show "masks_of h (name_repl h)" by (rule name_hit_masks_of)
  qed
  then have o1: "masks_of pre O1" using X by simp
  have t: "take (length ?rem) O2 = ?rem" unfolding O2_def by (rule name_tail [OF rem])
  have l: "length O2 = length ?rem + length post" unfolding O2_def by (simp add: name_out_length)
  have o: "O2 = ?rem @ drop (length ?rem) O2"
    using append_take_drop_id [of "length ?rem" O2] t by metis
  have "ReplaceAllStringFunc namePattern ?t name_repl = O1 @ name_repl m @ O2"
    using s1 s2 by (simp add: ReplaceAllStringFunc_def O1_def O2_def)
  also have "\<dots> = O1 @ (kw @ sep # ws @ replicate 4 star) @ O2"
    using name_repl_shape [OF kw sep ws nm(1,2,3)] nm(4) by (simp add: m_def)
  also have "\<dots> = O1 @ kw @ sep # ws @ replicate 4 star @ ?rem @ drop (length ?rem) O2"
    using o by simp
  finally show ?thesis
    using l o1 by (intro exI [of _ O1] exI [of _ "drop (length ?rem) O2"]) simp
qed


section \<open>The passes of one run\<close>

lemma mask_simple_append: "mask_simple (ps @ qs) t = mask_simple qs (mask_simple ps t)"
  by (simp add: mask_simple_def)

lemma pass_input_0: "pass_input 0 t = t"
  by (simp add: pass_input_def mask_simple_def)

lemma pass_input_Suc:
  assumes "k < length simplePatterns"
  shows "pass_input (Suc k) t = ReplaceAllStringFunc (simplePatterns ! k) (pass_input k t) maskRunes"
  unfolding pass_input_def take_Suc_conv_app_nth [OF assms]
  by (simp add: mask_simple_def)

lemma pass_input_all: "MaskPII t = ReplaceAllStringFunc namePattern (pass_input (length simplePatterns) t) name_repl"
  by (simp add: pass_input_def MaskPII_def)

lemma pass_input_mono: "j \<le> k \<Longrightarrow> masks_of (pass_input j t) (pass_input k t)"
proof -
  assume "j \<le> k"
  then have "take k simplePatterns = take j simplePatterns @ drop j (take k simplePatterns)"
    by (metis append_take_drop_id min.absorb1 take_take)
  then have "pass_input k t = mask_simple (drop j (take k simplePatterns)) (pass_input j t)"
    unfolding pass_input_def using mask_simple_append by metis
  then show ?thesis using mask_simple_masks_of by simp
qed

lemma pass_input_final: "masks_of (pass_input k t) (MaskPII t)"
proof -
  have "simplePatterns = take k simplePatterns @ drop k simplePatterns" by simp
  then have "mask_simple simplePatterns t = mask_simple (drop k simplePatterns) (pass_input k t)"
    unfolding pass_input_def using mask_simple_append by metis
  then have a: "masks_of (pass_input k t) (mask_simple simplePatterns t)"
    using mask_simple_masks_of by simp
  have "masks_of (mask_simple simplePatterns t) (MaskPII t)"
    unfolding MaskPII_def by (rule replace_masks_of) (rule name_hit_masks_of)
  with a show ?thesis by (rule masks_of_trans)
qed

lemma pass_input_length: "length (pass_input k t) = length t"
  unfolding pass_input_def by (rule masks_of_length [OF mask_simple_masks_of])

lemma replace_at_hit:
  assumes "scan r None s = X @ Hit h # Y"
  shows "ReplaceAllStringFunc r s maskRunes
           = concat (map (seg_out maskRunes) X) @ replicate (length h) star
               @ concat (map (seg_out maskRunes) Y)"
    and "s = concat (map seg_src X) @ h @ concat (map seg_src Y)"
proof -
  show "ReplaceAllStringFunc r s maskRunes
           = concat (map (seg_out maskRunes) X) @ replicate (length h) star
               @ concat (map (seg_out maskRunes) Y)"
    by (simp add: ReplaceAllStringFunc_def assms maskRunes_replicate)
  have "concat (map seg_src (scan r None s)) = s" by (rule scan_src)
  then show "s = concat (map seg_src X) @ h @ concat (map seg_src Y)"
    by (simp add: assms)
qed

text \<open>
  A match of one pass is a run of mask characters in the text that every later pass
  finds, and in the output.
\<close>

lemma hit_masked_in_output:
  assumes k: "k < length simplePatterns"
    and sc: "scan (simplePatterns ! k) None (pass_input k t) = X @ Hit h # Y"
  shows "\<exists>A B. MaskPII t = A @ replicate (length h) star @ B \<and>
           length A = length (concat (map seg_src X)) \<and>
           length B = length (concat (map seg_src Y))"
proof -
  have "masks_of (pass_input (Suc k) t) (MaskPII t)" by (rule pass_input_final)
  then have "masks_of (concat (map (seg_out maskRunes) X) @ replicate (length h) star
               @ concat (map (seg_out maskRunes) Y)) (MaskPII t)"
    using pass_input_Suc [OF k, of t] replace_at_hit(1) [OF sc] by simp
  from masks_of_split [OF this] show ?thesis by (simp add: out_length)
qed

lemma spans_mem:
  "(a, l) \<in> set (spans n segs) \<Longrightarrow>
     \<exists>X h Y. segs = X @ Hit h # Y \<and> a = n + length (concat (map seg_src X)) \<and> l = length h"
proof (induction n segs rule: spans.induct)
  case (1 n)
  then show ?case by simp
next
  case (2 n c segs)
  then obtain X h Y where "segs = X @ Hit h # Y"
    "a = Suc n + length (concat (map seg_src X))" "l = length h" by auto
  then show ?case by (intro exI [of _ "Keep c # X"] exI [of _ h] exI [of _ Y]) simp
next
  case (3 n m segs)
  from "3.prems" consider "a = n" "l = length m" | "(a, l) \<in> set (spans (n + length m) segs)"
    by auto
  then show ?case
  proof cases
    case 1
    then show ?thesis by (intro exI [of _ "[]"] exI [of _ m] exI [of _ segs]) simp
  next
    case 2
    from "3.IH" [OF this] obtain X h Y where "segs = X @ Hit h # Y"
      "a = n + length m + length (concat (map seg_src X))" "l = length h" by auto
    then show ?thesis by (intro exI [of _ "Hit m # X"] exI [of _ h] exI [of _ Y]) simp
  qed
qed

lemma spans_ge: "(a, l) \<in> set (spans n segs) \<Longrightarrow> n \<le> a"
  by (induction n segs rule: spans.induct) auto

lemma spans_disjoint:
  "(a, la) \<in> set (spans n segs) \<Longrightarrow> (b, lb) \<in> set (spans n segs) \<Longrightarrow> (a, la) \<noteq> (b, lb) \<Longrightarrow>
     a + la \<le> b \<or> b + lb \<le> a"
proof (induction n segs rule: spans.induct)
  case (3 n m segs)
  show ?case
  proof (cases "(a, la) \<in> set (spans (n + length m) segs)")
    case True
    note A = True
    show ?thesis
    proof (cases "(b, lb) \<in> set (spans (n + length m) segs)")
      case True
      then show ?thesis using A 3 by blast
    next
      case False
      then have "b = n" "lb = length m" using "3.prems" by auto
      then show ?thesis using spans_ge [OF A] by simp
    qed
  next
    case False
    then have a: "a = n" "la = length m" using "3.prems" by auto
    then have "(b, lb) \<in> set (spans (n + length m) segs)" using "3.prems" by auto
    from spans_ge [OF this] show ?thesis using a by simp
  qed
qed auto

text \<open>
  A span of an earlier pass consists of mask characters when a later pass runs, and a
  match of the later pass has none: the two spans share no position.
\<close>

lemma cross_pass_disjoint:
  assumes ij: "i < j" "j < length simplePatterns"
    and ns: "\<not> accepts (simplePatterns ! j) star"
    and a: "(a, la) \<in> set (pass_spans i t)"
    and b: "(b, lb) \<in> set (pass_spans j t)"
  shows "a + la \<le> b \<or> b + lb \<le> a"
proof (rule ccontr)
  assume "\<not> (a + la \<le> b \<or> b + lb \<le> a)"
  then have ov: "b < a + la" "a < b + lb" by simp_all
  from spans_mem [OF a [unfolded pass_spans_def]] obtain X h Y where
    X: "scan (simplePatterns ! i) None (pass_input i t) = X @ Hit h # Y"
      "a = length (concat (map seg_src X))" "la = length h" by auto
  from spans_mem [OF b [unfolded pass_spans_def]] obtain X' h' Y' where
    X': "scan (simplePatterns ! j) None (pass_input j t) = X' @ Hit h' # Y'"
      "b = length (concat (map seg_src X'))" "lb = length h'" by auto
  have i: "i < length simplePatterns" using ij by simp
  have "masks_of (pass_input (Suc i) t) (pass_input j t)"
    using ij by (intro pass_input_mono) simp
  then have "masks_of (concat (map (seg_out maskRunes) X) @ replicate (length h) star
               @ concat (map (seg_out maskRunes) Y)) (pass_input j t)"
    using pass_input_Suc [OF i, of t] replace_at_hit(1) [OF X(1)] by simp
  from masks_of_split [OF this] obtain A B where
    A: "pass_input j t = A @ replicate (length h) star @ B" "length A = a"
    by (auto simp: out_length X(2))
  have e: "pass_input j t = concat (map seg_src X') @ h' @ concat (map seg_src Y')"
    by (rule replace_at_hit(2) [OF X'(1)])
  have "Hit h' \<in> set (scan (simplePatterns ! j) None (pass_input j t))" using X'(1) by simp
  from hit_no_star [OF ns this] have ns': "star \<notin> set h'" .
  have "h' \<noteq> []" using scan_hit_accepts(1) [of h' "simplePatterns ! j" None "pass_input j t"] X'(1)
    by simp
  moreover have "h \<noteq> []"
    using scan_hit_accepts(1) [of h "simplePatterns ! i" None "pass_input i t"] X(1) by simp
  ultimately have pos: "0 < la" "0 < lb" using X(3) X'(3) by simp_all
  define n where "n = max a b"
  have n: "a \<le> n" "n < a + la" "b \<le> n" "n < b + lb" using ov pos by (auto simp: n_def)
  have "n - a < length h" using n(1,2) X(3) by simp
  then have "pass_input j t ! n = star"
    using A n(1) by (simp add: nth_append)
  moreover have "n - b < length h'" using n(3,4) X'(3) by simp
  then have "pass_input j t ! n = h' ! (n - b)"
    using n(3) X'(2) by (subst e) (simp add: nth_append)
  moreover have "h' ! (n - b) \<in> set h'" using n(3,4) X'(3) by simp
  ultimately show False using ns' by simp
qed


lemma later_no_star:
  assumes "1 \<le> k" "k < length simplePatterns"
  shows "\<not> accepts (simplePatterns ! k) star"
proof -
  have "simplePatterns ! k = tl simplePatterns ! (k - 1)"
    using assms by (simp add: nth_tl)
  moreover have "k - 1 < length (tl simplePatterns)" using assms by simp
  ultimately have "simplePatterns ! k \<in> set (tl simplePatterns @ [namePattern])"
    by (metis nth_mem set_append UnI1)
  then show ?thesis using not_accepts_star unfolding list_all_iff by blast
qed

lemma span_replaced:
  assumes k: "k < length simplePatterns" and a: "(a, la) \<in> set (pass_spans k t)"
  shows "0 < la" "a + la \<le> length t"
    "take la (drop a (pass_input (Suc k) t)) = replicate la star"
proof -
  from spans_mem [OF a [unfolded pass_spans_def]] obtain X h Y where
    X: "scan (simplePatterns ! k) None (pass_input k t) = X @ Hit h # Y"
      "a = length (concat (map seg_src X))" "la = length h" by auto
  have "Hit h \<in> set (scan (simplePatterns ! k) None (pass_input k t))" using X(1) by simp
  from scan_hit_accepts(1) [OF this] show "0 < la" using X(3) by simp
  have "length (pass_input k t) = length (concat (map seg_src X) @ h @ concat (map seg_src Y))"
    using replace_at_hit(2) [OF X(1)] by simp
  then show "a + la \<le> length t" using X(2,3) by (simp add: pass_input_length)
  have "pass_input (Suc k) t = concat (map (seg_out maskRunes) X) @ replicate (length h) star
               @ concat (map (seg_out maskRunes) Y)"
    using pass_input_Suc [OF k, of t] replace_at_hit(1) [OF X(1)] by simp
  moreover have "length (concat (map (seg_out maskRunes) X)) = a"
    using out_length [of X] X(2) by simp
  ultimately show "take la (drop a (pass_input (Suc k) t)) = replicate la star"
    using X(3) by simp
qed

section \<open>Matches and the text around them\<close>

text \<open>
  Whether \<open>r\<close> matches a given text \<open>m\<close> at a position depends on the text around \<open>m\<close> only
  through \<^verbatim>\<open>\b\<close>: on whether the rune before \<open>m\<close> and the rune after \<open>m\<close> are word
  characters, and on nothing at all when \<open>r\<close> has no \<^verbatim>\<open>\b\<close>.
\<close>

lemma at_boundary_class: "at_boundary p s = (pclass p \<noteq> wclass s)"
  by (simp add: at_boundary_def pclass_def wclass_def)

lemma ctx_ctx: "ctx (ctx p a) b = ctx p (a @ b)"
  by (simp add: ctx_def)

lemma mem_ctx:
  assumes "(p', s1, g') \<in> set (rmatch r (p, m @ s1, g))"
  shows "p' = ctx p m"
proof -
  have c: "consumed (m @ s1) (rest_of (p', s1, g')) = m"
    by (simp add: rest_of_def consumed_append)
  show ?thesis using rmatch_split(3) [OF assms] unfolding c by (simp add: ctx_def)
qed

lemma mem_mid:
  assumes "x \<in> set (rmatch r (p, m @ s1, g))" "rest_of x = m2 @ s1"
  shows "\<exists>m1. m = m1 @ m2 \<and> x = (ctx p m1, m2 @ s1, snd (snd x))"
proof -
  obtain px sx gx where x: "x = (px, sx, gx)" by (cases x)
  have sx: "sx = m2 @ s1" using assms(2) x by (simp add: rest_of_def)
  from rmatch_split(1) [OF assms(1)] have "m @ s1 = consumed (m @ s1) sx @ m2 @ s1"
    using x sx by (simp add: rest_of_def)
  then have m: "m = consumed (m @ s1) sx @ m2" by simp
  have "(px, m2 @ s1, gx) \<in> set (rmatch r (p, (consumed (m @ s1) sx) @ (m2 @ s1), g))"
    using assms(1) x sx m by (metis append.assoc)
  from mem_ctx [OF this] show ?thesis using m x sx by auto
qed

lemma class_append: "wclass s1 = wclass s2 \<Longrightarrow> wclass (m @ s1) = wclass (m @ s2)"
  by (cases m) (simp_all add: wclass_def)

lemma class_ctx: "pclass p1 = pclass p2 \<Longrightarrow> pclass (ctx p1 m) = pclass (ctx p2 m)"
  by (simp add: ctx_def)

lemma iter_local:
  assumes f: "\<And>p1 p2 m s1 s2 g p' g'. (p', s1, g') \<in> set (rmatch r (p1, m @ s1, g)) \<Longrightarrow>
      nw \<or> (pclass p1 = pclass p2 \<and> wclass s1 = wclass s2) \<Longrightarrow>
      (ctx p2 m, s2, g') \<in> set (rmatch r (p2, m @ s2, g))"
  shows "(p', s1, g') \<in> set (iter (rmatch r) mn mx (p1, m @ s1, g)) \<Longrightarrow>
      nw \<or> (pclass p1 = pclass p2 \<and> wclass s1 = wclass s2) \<Longrightarrow>
      (ctx p2 m, s2, g') \<in> set (iter (rmatch r) mn mx (p2, m @ s2, g))"
proof (induction "length m" arbitrary: m mn mx p1 p2 g rule: less_induct)
  case less
  from less.prems(1) consider
    (more) x where "mx \<noteq> Some 0" "x \<in> set (rmatch r (p1, m @ s1, g))"
      "length (rest_of x) < length (m @ s1)"
      "(p', s1, g') \<in> set (iter (rmatch r) (mn - 1) (map_option (\<lambda>m. m - 1) mx) x)"
    | (stop) "mn = 0" "(p', s1, g') = (p1, m @ s1, g)"
    by (subst (asm) iter.simps) (auto split: if_splits simp: rest_of_def)
  then show ?case
  proof cases
    case stop
    then have "m = []" "g' = g" by simp_all
    then show ?thesis using stop(1) by (subst iter.simps) (simp add: ctx_def)
  next
    case more
    from iter_reads [OF more(4)] obtain m2 where m2: "rest_of x = m2 @ s1"
      by (auto simp: reads_def rest_of_def)
    from mem_mid [OF more(2) m2] obtain m1 where
      m1: "m = m1 @ m2" "x = (ctx p1 m1, m2 @ s1, snd (snd x))" by blast
    define gx where "gx = snd (snd x)"
    have nz: "m1 \<noteq> []" using more(3) m1(1) m2 by auto
    have c1: "nw \<or> (pclass p1 = pclass p2 \<and> wclass (m2 @ s1) = wclass (m2 @ s2))"
      using less.prems(2) class_append by blast
    have "(ctx p1 m1, m2 @ s1, gx) \<in> set (rmatch r (p1, m1 @ (m2 @ s1), g))"
      using more(2) m1 by (simp add: gx_def)
    from f [OF this c1] have a: "(ctx p2 m1, m2 @ s2, gx) \<in> set (rmatch r (p2, m1 @ m2 @ s2, g))" .
    have c2: "nw \<or> (pclass (ctx p1 m1) = pclass (ctx p2 m1) \<and> wclass s1 = wclass s2)"
      using less.prems(2) class_ctx by blast
    have "length m2 < length m" using m1(1) nz by simp
    moreover have "(p', s1, g') \<in> set (iter (rmatch r) (mn - 1) (map_option (\<lambda>m. m - 1) mx)
        (ctx p1 m1, m2 @ s1, gx))"
      using more(4) m1(2) by (simp add: gx_def)
    ultimately have b: "(ctx (ctx p2 m1) m2, s2, g')
        \<in> set (iter (rmatch r) (mn - 1) (map_option (\<lambda>m. m - 1) mx) (ctx p2 m1, m2 @ s2, gx))"
      using c2 by (rule less.hyps)
    have fl: "(ctx p2 m1, m2 @ s2, gx)
        \<in> set (filter (\<lambda>st'. length (rest_of st') < length (rest_of (p2, m @ s2, g)))
                 (rmatch r (p2, m @ s2, g)))"
      using a m1(1) nz by (simp add: rest_of_def)
    have b': "(ctx p2 m, s2, g')
        \<in> set (iter (rmatch r) (mn - 1) (map_option (\<lambda>m. m - 1) mx) (ctx p2 m1, m2 @ s2, gx))"
      using b by (simp add: ctx_ctx m1(1))
    have "(ctx p2 m, s2, g')
        \<in> set (concat (map (iter (rmatch r) (mn - 1) (map_option (\<lambda>m. m - 1) mx))
             (filter (\<lambda>st'. length (rest_of st') < length (rest_of (p2, m @ s2, g)))
                 (rmatch r (p2, m @ s2, g)))))"
      unfolding set_concat set_map using fl b' by blast
    then show ?thesis
      using more(1) by (subst iter.simps) simp
  qed
qed

lemma rmatch_local:
  "(p', s1, g') \<in> set (rmatch r (p1, m @ s1, g)) \<Longrightarrow>
   \<not> has_wb r \<or> (pclass p1 = pclass p2 \<and> wclass s1 = wclass s2) \<Longrightarrow>
   (ctx p2 m, s2, g') \<in> set (rmatch r (p2, m @ s2, g))"
proof (induction r arbitrary: p' s1 g' p1 p2 m s2 g)
  case Eps
  then show ?case by (simp add: ctx_def)
next
  case (Lit w)
  show ?case
  proof (cases "w = []")
    case True
    then show ?thesis using Lit by (simp add: ctx_def)
  next
    case False
    with Lit.prems(1) have t: "take (length w) (m @ s1) = w" "s1 = drop (length w) (m @ s1)"
      "g' = g" by (auto split: if_splits)
    have "m @ s1 = w @ s1" using t(1,2) by (metis append_take_drop_id)
    then have "m = w" by simp
    then show ?thesis using False t(3) by (simp add: ctx_def)
  qed
next
  case (Cls rs)
  from Cls.prems(1) obtain c where "m @ s1 = c # s1" "in_ranges rs c" "g' = g"
    by (cases "m @ s1") (auto split: if_splits)
  moreover then have "m = [c]" by simp
  ultimately show ?case by (simp add: ctx_def)
next
  case (NCls rs)
  from NCls.prems(1) obtain c where "m @ s1 = c # s1" "\<not> in_ranges rs c" "g' = g"
    by (cases "m @ s1") (auto split: if_splits)
  moreover then have "m = [c]" by simp
  ultimately show ?case by (simp add: ctx_def)
next
  case (Cat r1 r2)
  from Cat.prems(1) obtain x where x: "x \<in> set (rmatch r1 (p1, m @ s1, g))"
    "(p', s1, g') \<in> set (rmatch r2 x)" by auto
  obtain px sx gx where xe: "x = (px, sx, gx)" by (cases x)
  from rmatch_split(1) [OF x(2) [unfolded xe]] obtain m2 where m2: "sx = m2 @ s1"
    by (auto simp: rest_of_def)
  from mem_mid [OF x(1), of m2] obtain m1 where
    m1: "m = m1 @ m2" "x = (ctx p1 m1, m2 @ s1, gx)" using xe m2 by (auto simp: rest_of_def)
  have c1: "\<not> has_wb r1 \<or> (pclass p1 = pclass p2 \<and> wclass (m2 @ s1) = wclass (m2 @ s2))"
    using Cat.prems(2) class_append [of s1 s2 m2] by auto
  have "(ctx p1 m1, m2 @ s1, gx) \<in> set (rmatch r1 (p1, m1 @ (m2 @ s1), g))"
    using x(1) m1 by simp
  from Cat.IH(1) [OF this c1]
  have a: "(ctx p2 m1, m2 @ s2, gx) \<in> set (rmatch r1 (p2, m1 @ m2 @ s2, g))" .
  have c2: "\<not> has_wb r2 \<or> (pclass (ctx p1 m1) = pclass (ctx p2 m1) \<and> wclass s1 = wclass s2)"
    using Cat.prems(2) class_ctx [of p1 p2 m1] by auto
  have "(p', s1, g') \<in> set (rmatch r2 (ctx p1 m1, m2 @ s1, gx))" using x(2) m1(2) by simp
  from Cat.IH(2) [OF this c2]
  have "(ctx (ctx p2 m1) m2, s2, g') \<in> set (rmatch r2 (ctx p2 m1, m2 @ s2, gx))" .
  then show ?case using a m1(1) by (auto simp: ctx_ctx)
next
  case (Alt r1 r2)
  from Alt.prems(1) have "(p', s1, g') \<in> set (rmatch r1 (p1, m @ s1, g)) \<or>
      (p', s1, g') \<in> set (rmatch r2 (p1, m @ s1, g))" by auto
  then show ?case
  proof
    assume "(p', s1, g') \<in> set (rmatch r1 (p1, m @ s1, g))"
    from Alt.IH(1) [OF this, of p2 s2] Alt.prems(2) show ?thesis by auto
  next
    assume "(p', s1, g') \<in> set (rmatch r2 (p1, m @ s1, g))"
    from Alt.IH(2) [OF this, of p2 s2] Alt.prems(2) show ?thesis by auto
  qed
next
  case (Rep r mn mx)
  have "(ctx p2 m, s2, g') \<in> set (iter (rmatch r) mn mx (p2, m @ s2, g))"
  proof (rule iter_local [where nw = "\<not> has_wb r" and ?p1.0 = p1 and ?s1.0 = s1 and p' = p'])
    show "(p', s1, g') \<in> set (iter (rmatch r) mn mx (p1, m @ s1, g))" using Rep.prems(1) by simp
    show "\<not> has_wb r \<or> (pclass p1 = pclass p2 \<and> wclass s1 = wclass s2)"
      using Rep.prems(2) by simp
  next
    fix p1 p2 m s1 s2 g p' g'
    assume "(p', s1, g') \<in> set (rmatch r (p1, m @ s1, g))"
      "\<not> has_wb r \<or> (pclass p1 = pclass p2 \<and> wclass s1 = wclass s2)"
    then show "(ctx p2 m, s2, g') \<in> set (rmatch r (p2, m @ s2, g))" by (rule Rep.IH)
  qed
  then show ?case by simp
next
  case WordB
  then have "m = []" "g' = g" "at_boundary p1 s1" by (auto split: if_splits)
  moreover have "pclass p1 = pclass p2 \<and> wclass s1 = wclass s2" using WordB.prems(2) by simp
  ultimately show ?case by (simp add: at_boundary_class ctx_def)
next
  case (Grp i r)
  from Grp.prems(1) obtain g0 where g0: "(p', s1, g0) \<in> set (rmatch r (p1, m @ s1, g))"
    "g' = (i, consumed (m @ s1) s1) # g0" by (auto simp: rest_of_def)
  have "(ctx p2 m, s2, g0) \<in> set (rmatch r (p2, m @ s2, g))"
    using Grp.IH [OF g0(1), of p2 s2] Grp.prems(2) by simp
  then have "(ctx p2 m, s2, (i, consumed (m @ s2) s2) # g0) \<in> set (rmatch (Grp i r) (p2, m @ s2, g))"
    by (force simp: rest_of_def)
  then show ?case using g0(2) by (simp add: consumed_append)
qed

lemma starts_wb_boundary:
  "starts_wb r \<Longrightarrow> st' \<in> set (rmatch r (p, s, g)) \<Longrightarrow> at_boundary p s"
proof (induction r arbitrary: st' g)
  case (Cat r1 r2)
  then show ?case by auto
next
  case WordB
  then show ?case by (auto split: if_splits)
next
  case (Grp i r)
  then show ?case by auto
qed simp_all

lemma ends_wb_boundary:
  "ends_wb r \<Longrightarrow> (p', s', g') \<in> set (rmatch r st) \<Longrightarrow> at_boundary p' s'"
proof (induction r arbitrary: p' s' g' st)
  case (Cat r1 r2)
  then show ?case by auto
next
  case WordB
  then show ?case by (cases st) (auto split: if_splits)
next
  case (Grp i r)
  then show ?case by (cases st) auto
qed simp_all

lemma wb_ok: "list_all (\<lambda>r. \<not> has_wb r \<or> (starts_wb r \<and> ends_wb r)) (simplePatterns @ [namePattern])"
  by code_simp


section \<open>The output of a run, searched again\<close>

text \<open>
  Every match that a search reports is the first match at its place, with the rune of
  the text before it as the rune before the position.
\<close>

lemma scan_hit_ctx:
  "Hit m \<in> set (scan r p s) \<Longrightarrow>
     \<exists>pre rest st xs. s = pre @ m @ rest \<and> rmatch r (ctx p pre, m @ rest, []) = st # xs \<and>
        rest_of st = rest \<and> m \<noteq> []"
proof (induction r p s rule: scan.induct)
  case (1 r p)
  then show ?case by simp
next
  case (2 r p c cs)
  have keep: ?case if "Hit m \<in> set (scan r (Some c) cs)"
    and ih: "Hit m \<in> set (scan r (Some c) cs) \<Longrightarrow>
      \<exists>pre rest st xs. cs = pre @ m @ rest \<and> rmatch r (ctx (Some c) pre, m @ rest, []) = st # xs \<and>
        rest_of st = rest \<and> m \<noteq> []"
  proof -
    from ih [OF that(1)] obtain pre rest st xs where a: "cs = pre @ m @ rest"
      "rmatch r (ctx (Some c) pre, m @ rest, []) = st # xs" "rest_of st = rest" "m \<noteq> []" by blast
    have "c # cs = (c # pre) @ m @ rest" using a(1) by simp
    moreover have "rmatch r (ctx p (c # pre), m @ rest, []) = st # xs"
      using a(2) ctx_Cons [of c pre p] by simp
    ultimately show ?thesis using a(3,4) by blast
  qed
  show ?case
  proof (cases "rmatch r (p, c # cs, [])")
    case Nil
    then show ?thesis using keep "2.IH"(1) [OF Nil] "2.prems" by simp
  next
    case (Cons st xs)
    show ?thesis
    proof (cases "length (rest_of st) < length (c # cs)")
      case True
      have "st \<in> set (rmatch r (p, c # cs, []))" using Cons by simp
      from rmatch_split(1) [OF this]
      have e: "c # cs = consumed (c # cs) (rest_of st) @ rest_of st" .
      define h where "h = consumed (c # cs) (rest_of st)"
      have hz: "h \<noteq> []" using e True unfolding h_def by (metis append_Nil less_irrefl)
      from "2.prems" Cons True
      consider "m = h" | "Hit m \<in> set (scan r (Some (last h)) (rest_of st))"
        by (auto simp: h_def)
      then show ?thesis
      proof cases
        case 1
        have "c # cs = [] @ m @ rest_of st" using e 1 by (simp add: h_def)
        moreover have "rmatch r (ctx p [], m @ rest_of st, []) = st # xs"
          using Cons e 1 by (simp add: h_def ctx_def)
        ultimately show ?thesis using hz 1 by blast
      next
        case 2
        from "2.IH"(2) [OF Cons True, folded h_def, OF 2] obtain pre rest st' xs' where
          a: "rest_of st = pre @ m @ rest"
          "rmatch r (ctx (Some (last h)) pre, m @ rest, []) = st' # xs'" "rest_of st' = rest"
          "m \<noteq> []" by blast
        have "c # cs = (h @ pre) @ m @ rest" using e a(1) by (simp add: h_def)
        moreover have "rmatch r (ctx p (h @ pre), m @ rest, []) = st' # xs'"
          using a(2) ctx_append [OF hz, of pre p] by simp
        ultimately show ?thesis using a(3,4) by blast
      qed
    next
      case False
      then show ?thesis using keep "2.IH"(3) [OF Cons False] "2.prems" Cons by simp
    qed
  qed
qed

lemma masks_of_app_r:
  "masks_of s (x @ y) \<Longrightarrow> \<exists>a b. s = a @ b \<and> masks_of a x \<and> masks_of b y \<and> length a = length x"
  unfolding masks_of_def by (auto simp: list_all2_append2)

lemma masks_of_no_star: "masks_of a b \<Longrightarrow> star \<notin> set b \<Longrightarrow> a = b"
  unfolding masks_of_def by (induction a b rule: list_all2_induct) auto

lemma masks_of_ctx: "masks_of a b \<Longrightarrow> ctx None b = ctx None a \<or> (b \<noteq> [] \<and> last b = star)"
  unfolding masks_of_def by (induction a b rule: list_all2_induct) (auto simp: ctx_def)

lemma masks_of_hd: "masks_of a b \<Longrightarrow> wclass b = wclass a \<or> (b \<noteq> [] \<and> hd b = star)"
  unfolding masks_of_def by (cases a; cases b) (auto simp: wclass_def)

lemma mask_at_word_intro:
  "(x = star \<and> is_word y) \<or> (is_word x \<and> y = star) \<Longrightarrow> mask_at_word (A @ x # y # B)"
proof (induction A)
  case Nil
  then show ?case by auto
next
  case (Cons a A)
  obtain b cs where e: "A @ x # y # B = b # cs" by (cases "A @ x # y # B") auto
  then show ?case using Cons by simp
qed

lemma not_word_star: "\<not> is_word star"
  by code_simp

text \<open>
  Where a pattern matches, the pass masks the rune at that place: either the search gets
  there and takes the first match, or an earlier match of the same pass covers it.
\<close>

lemma pass_masks_first:
  assumes m: "rmatch r (ctx None pre, c # rest, []) = st # xs"
    and lt: "length (rest_of st) < length (c # rest)"
  shows "\<exists>A B. ReplaceAllStringFunc r (pre @ c # rest) maskRunes = A @ star # B \<and>
           length A = length pre"
proof -
  from scan_cut [of pre r None "c # rest"]
  consider (reach) X where "concat (map seg_src X) = pre"
      "scan r None (pre @ c # rest) = X @ scan r (ctx None pre) (c # rest)"
    | (cross) X u v w where "pre = concat (map seg_src X) @ u" "u \<noteq> []" "v \<noteq> []"
      "scan r None (pre @ c # rest) = X @ Hit (u @ v) # scan r (Some (last (u @ v))) w"
    by blast
  then show ?thesis
  proof cases
    case reach
    define h where "h = consumed (c # rest) (rest_of st)"
    have "st \<in> set (rmatch r (ctx None pre, c # rest, []))" using m by simp
    from rmatch_split(1) [OF this] have e: "c # rest = h @ rest_of st" by (simp add: h_def)
    have hz: "h \<noteq> []" using e lt by auto
    have "scan r (ctx None pre) (c # rest) = Hit h # scan r (Some (last h)) (rest_of st)"
      using m lt by (simp add: h_def)
    then have "ReplaceAllStringFunc r (pre @ c # rest) maskRunes
        = concat (map (seg_out maskRunes) X) @ replicate (length h) star
            @ concat (map (seg_out maskRunes) (scan r (Some (last h)) (rest_of st)))"
      using reach(2) by (simp add: ReplaceAllStringFunc_def maskRunes_replicate)
    moreover have "replicate (length h) star = star # replicate (length h - 1) star"
      using hz by (cases h) simp_all
    ultimately have "ReplaceAllStringFunc r (pre @ c # rest) maskRunes
        = concat (map (seg_out maskRunes) X) @ star # (replicate (length h - 1) star
            @ concat (map (seg_out maskRunes) (scan r (Some (last h)) (rest_of st))))"
      by simp
    moreover have "length (concat (map (seg_out maskRunes) X)) = length pre"
      using out_length [of X] reach(1) by simp
    ultimately show ?thesis by blast
  next
    case cross
    have "ReplaceAllStringFunc r (pre @ c # rest) maskRunes
        = concat (map (seg_out maskRunes) X) @ replicate (length u + length v) star
            @ concat (map (seg_out maskRunes) (scan r (Some (last (u @ v))) w))"
      using cross(4) by (simp add: ReplaceAllStringFunc_def maskRunes_replicate)
    moreover have "replicate (length u + length v) star
        = replicate (length u) star @ star # replicate (length v - 1) star"
      using cross(3) by (cases v) (simp_all add: replicate_add replicate_append_same)
    ultimately have "ReplaceAllStringFunc r (pre @ c # rest) maskRunes
        = (concat (map (seg_out maskRunes) X) @ replicate (length u) star) @ star
            # (replicate (length v - 1) star
               @ concat (map (seg_out maskRunes) (scan r (Some (last (u @ v))) w)))"
      by simp
    moreover have "length (concat (map (seg_out maskRunes) X) @ replicate (length u) star)
        = length pre"
      using out_length [of X] cross(1) by simp
    ultimately show ?thesis by blast
  qed
qed

text \<open>
  A match of a rule 2 to 9 in the output contains no mask character, so its runes stood
  at the same place when the pass of that rule ran in the first application. If no mask
  character touches a word character in the output, \<^verbatim>\<open>\b\<close> saw the same at both ends
  of the match then, the pattern matched at that place, and the pass has masked its
  first rune: there is no such match.
\<close>

lemma simple_no_hit_output:
  assumes k: "k < length simplePatterns" and ns: "\<not> accepts (simplePatterns ! k) star"
    and nt: "\<not> mask_at_word (MaskPII t)"
  shows "Hit m \<notin> set (scan (simplePatterns ! k) None (MaskPII t))"
proof
  define r where "r = simplePatterns ! k"
  define u where "u = MaskPII t"
  assume "Hit m \<in> set (scan (simplePatterns ! k) None (MaskPII t))"
  then have h: "Hit m \<in> set (scan r None u)" by (simp add: r_def u_def)
  from scan_hit_ctx [OF h] obtain pre_u rest_u st xs where
    u: "u = pre_u @ m @ rest_u" "rmatch r (ctx None pre_u, m @ rest_u, []) = st # xs"
      "rest_of st = rest_u" "m \<noteq> []" by blast
  have nsm: "star \<notin> set m" using hit_no_star [OF _ h] ns by (simp add: r_def)
  have mo: "masks_of (pass_input k t) u" unfolding u_def by (rule pass_input_final)
  from masks_of_app_r [OF mo [unfolded u(1)]] obtain pre_k mr where
    a: "pass_input k t = pre_k @ mr" "masks_of pre_k pre_u" "masks_of mr (m @ rest_u)"
      "length pre_k = length pre_u" by blast
  from masks_of_app_r [OF a(3)] obtain m_k rest_k where
    b: "mr = m_k @ rest_k" "masks_of m_k m" "masks_of rest_k rest_u" by blast
  have mk: "m_k = m" using masks_of_no_star [OF b(2) nsm] .
  have rin: "r \<in> set (simplePatterns @ [namePattern])" using k by (simp add: r_def)
  have wb: "\<not> has_wb r \<or> (starts_wb r \<and> ends_wb r)"
    using wb_ok rin unfolding list_all_iff by blast
  have nn: "nonnull r" using patterns_nonnull rin unfolding list_all_iff by blast
  obtain p' s' g' where st: "st = (p', s', g')" by (cases st)
  have s': "s' = rest_u" using u(3) st by (simp add: rest_of_def)
  have mem: "(p', rest_u, g') \<in> set (rmatch r (ctx None pre_u, m @ rest_u, []))"
    using u(2) st s' by simp
  have p': "p' = Some (last m)" using mem_ctx [OF mem] u(4) by (simp add: ctx_def)
  have cond: "\<not> has_wb r \<or>
      (pclass (ctx None pre_u) = pclass (ctx None pre_k) \<and> wclass rest_u = wclass rest_k)"
  proof (cases "has_wb r")
    case False
    then show ?thesis by simp
  next
    case True
    then have se: "starts_wb r" "ends_wb r" using wb by simp_all
    have b1: "at_boundary (ctx None pre_u) (m @ rest_u)"
      by (rule starts_wb_boundary [OF se(1) mem])
    have b2: "at_boundary (Some (last m)) rest_u"
      using ends_wb_boundary [OF se(2) mem] p' by simp
    obtain c m' where m: "m = c # m'" using u(4) by (cases m) auto
    have "ctx None pre_u = ctx None pre_k"
    proof (rule ccontr)
      assume "ctx None pre_u \<noteq> ctx None pre_k"
      then have l: "pre_u \<noteq> []" "last pre_u = star" using masks_of_ctx [OF a(2)] by auto
      then have "is_word c" using b1 m not_word_star
        by (simp add: at_boundary_class pclass_def wclass_def ctx_def)
      then have "mask_at_word (butlast pre_u @ star # c # (m' @ rest_u))"
        by (intro mask_at_word_intro) simp
      moreover have "u = butlast pre_u @ star # c # (m' @ rest_u)"
        using u(1) m l by (metis append.assoc append_Cons append_Nil append_butlast_last_id)
      ultimately show False using nt u_def by simp
    qed
    moreover have "wclass rest_u = wclass rest_k"
    proof (rule ccontr)
      assume "wclass rest_u \<noteq> wclass rest_k"
      then have l: "rest_u \<noteq> []" "hd rest_u = star" using masks_of_hd [OF b(3)] by auto
      then have "is_word (last m)" using b2 not_word_star
        by (cases rest_u) (simp_all add: at_boundary_class pclass_def wclass_def)
      have "m = butlast m @ [last m]" using u(4) by simp
      moreover have "rest_u = star # tl rest_u" using l by (cases rest_u) simp_all
      ultimately have "u = (pre_u @ butlast m) @ last m # star # tl rest_u"
        using u(1) by (metis append.assoc append_Cons append_Nil)
      moreover have "mask_at_word ((pre_u @ butlast m) @ last m # star # tl rest_u)"
        using \<open>is_word (last m)\<close> by (intro mask_at_word_intro) simp
      ultimately show False using nt u_def by simp
    qed
    ultimately show ?thesis by simp
  qed
  from rmatch_local [OF mem cond]
  have "(ctx (ctx None pre_k) m, rest_k, g') \<in> set (rmatch r (ctx None pre_k, m @ rest_k, []))" .
  then obtain st1 xs1 where m1: "rmatch r (ctx None pre_k, m @ rest_k, []) = st1 # xs1"
    by (cases "rmatch r (ctx None pre_k, m @ rest_k, [])") auto
  then have "st1 \<in> set (rmatch r (ctx None pre_k, m @ rest_k, []))" by simp
  from nonnull_lt [OF nn this] have lt: "length (rest_of st1) < length (m @ rest_k)"
    by (simp add: rest_of_def)
  obtain c m' where m: "m = c # m'" using u(4) by (cases m) auto
  from pass_masks_first [of r pre_k c "m' @ rest_k" st1 xs1] m1 lt m
  obtain A B where A: "ReplaceAllStringFunc r (pre_k @ c # m' @ rest_k) maskRunes = A @ star # B"
    "length A = length pre_k" by auto
  have "pass_input (Suc k) t = A @ replicate 1 star @ B"
    using pass_input_Suc [OF k, of t] A(1) a(1) b(1) mk m by (simp add: r_def)
  moreover have "masks_of (pass_input (Suc k) t) u" unfolding u_def by (rule pass_input_final)
  ultimately have "masks_of (A @ replicate 1 star @ B) u" by simp
  from masks_of_split [OF this] obtain x y where
    x: "u = x @ replicate 1 star @ y" "length x = length A" by blast
  have "pre_u @ c # (m' @ rest_u) = x @ star # y" using x(1) u(1) m by simp
  moreover have "length pre_u = length x" using x(2) A(2) a(4) by simp
  ultimately have "c = star" by simp
  then show False using nsm m by simp
qed


lemma apart_in_ranges: "apart qs (lo, hi) \<Longrightarrow> in_ranges qs c \<Longrightarrow> \<not> (lo \<le> c \<and> c \<le> hi)"
  by (induction qs) auto

lemma apart_all: "list_all (apart qs) rs \<Longrightarrow> in_ranges qs c \<Longrightarrow> \<not> in_ranges rs c"
proof (induction rs)
  case Nil
  then show ?case by simp
next
  case (Cons x rs)
  obtain lo hi where x: "x = (lo, hi)" by (cases x)
  have "\<not> (lo \<le> c \<and> c \<le> hi)" using apart_in_ranges [of qs lo hi c] Cons.prems x by simp
  then show ?case using Cons x by simp
qed

text \<open>
  No match of a whole-match rule begins with white space. A white-space rune is
  therefore masked only together with the rune before it, by every pass and by
  \<open>MaskPII\<close> as a whole; the name rule masks ideographs only.
\<close>

lemma nofirst_no_match:
  "nofirst qs r \<Longrightarrow> in_ranges qs c \<Longrightarrow> rmatch r (p, c # cs, g) = []"
proof (induction r arbitrary: p g)
  case (Lit w)
  then obtain x xs where "w = x # xs" "x \<noteq> c" by (cases w) auto
  then show ?case by simp
next
  case (Cls rs)
  then show ?case using apart_all [of qs rs c] by simp
next
  case (Cat r1 r2)
  from Cat.prems(1) have "nofirst qs r1 \<or> (r1 = WordB \<and> nofirst qs r2)" by simp
  then show ?case
  proof
    assume "nofirst qs r1"
    then show ?thesis using Cat.IH(1) Cat.prems(2) by simp
  next
    assume "r1 = WordB \<and> nofirst qs r2"
    then show ?thesis using Cat.IH(2) Cat.prems(2) by simp
  qed
next
  case (Alt r1 r2)
  then show ?case by simp
next
  case (Rep r mn mx)
  then have "rmatch r (p, c # cs, g) = []" "0 < mn" by simp_all
  then show ?case by (simp add: iter.simps)
next
  case (Grp i r)
  then show ?case by simp
qed simp_all

lemma nofirst_simple: "list_all (nofirst space_ranges) simplePatterns"
  by code_simp

lemma split_at2:
  assumes "length pre + 2 \<le> length s"
  shows "\<exists>A x y B. s = A @ x # y # B \<and> length A = length pre"
proof -
  define n where "n = length pre"
  have "s = take n s @ s ! n # s ! Suc n # drop (Suc (Suc n)) s"
    using assms by (simp add: n_def Cons_nth_drop_Suc)
  moreover have "length (take n s) = length pre" using assms by (simp add: n_def)
  ultimately show ?thesis by blast
qed

lemma masks_where_at:
  assumes "masks_where P (A1 @ x # B1) (A @ y # B)" "length A = length A1"
  shows "y = x \<or> (y = star \<and> P x)"
  using assms unfolding masks_where_def by (simp add: list_all2_append)

lemma masks_of_where: "masks_of a b = masks_where (\<lambda>c. True) a b"
  by (simp add: masks_of_def masks_where_def)

lemma masks_of_at:
  assumes "masks_of (A1 @ x # B1) (A @ y # B)" "length A = length A1"
  shows "y = x \<or> y = star"
  using masks_where_at [of "\<lambda>c. True" A1 x B1 A y B] assms by (simp add: masks_of_where)

lemma pass_keeps_space:
  assumes nf: "nofirst space_ranges r" and sp: "in_ranges space_ranges c"
    and out: "ReplaceAllStringFunc r (pre @ a # c # rest) maskRunes = A @ a' # c' # B"
      "length A = length pre"
    and a': "a' \<noteq> star"
  shows "c' = c"
proof -
  from scan_cut [of "pre @ [a]" r None "c # rest"]
  consider (reach) X where "concat (map seg_src X) = pre @ [a]"
      "scan r None ((pre @ [a]) @ c # rest) = X @ scan r (ctx None (pre @ [a])) (c # rest)"
    | (cross) X u v w where "pre @ [a] = concat (map seg_src X) @ u" "u \<noteq> []" "v \<noteq> []"
      "scan r None ((pre @ [a]) @ c # rest) = X @ Hit (u @ v) # scan r (Some (last (u @ v))) w"
    by blast
  then show ?thesis
  proof cases
    case reach
    have "rmatch r (ctx None (pre @ [a]), c # rest, []) = []"
      by (rule nofirst_no_match [OF nf sp])
    then have "scan r (ctx None (pre @ [a])) (c # rest) = Keep c # scan r (Some c) rest"
      by simp
    then have "ReplaceAllStringFunc r (pre @ a # c # rest) maskRunes
        = concat (map (seg_out maskRunes) X) @ c
            # concat (map (seg_out maskRunes) (scan r (Some c) rest))"
      using reach(2) by (simp add: ReplaceAllStringFunc_def)
    then have "(A @ [a']) @ c' # B = concat (map (seg_out maskRunes) X) @ c
            # concat (map (seg_out maskRunes) (scan r (Some c) rest))"
      using out(1) by simp
    moreover have "length (A @ [a']) = length (concat (map (seg_out maskRunes) X))"
      using out_length [of X] reach(1) out(2) by simp
    ultimately show ?thesis by (metis append_eq_append_conv list.inject)
  next
    case cross
    define Z where "Z = concat (map (seg_out maskRunes) (scan r (Some (last (u @ v))) w))"
    define Ox where "Ox = concat (map (seg_out maskRunes) X)"
    have e: "ReplaceAllStringFunc r (pre @ a # c # rest) maskRunes
        = Ox @ replicate (length u + length v) star @ Z"
      using cross(4) by (simp add: ReplaceAllStringFunc_def maskRunes_replicate Z_def Ox_def)
    have "length (pre @ [a]) = length (concat (map seg_src X) @ u)" using cross(1) by simp
    then have l: "length pre + 1 = length Ox + length u"
      using out_length [of X] by (simp add: Ox_def)
    have "(A @ a' # c' # B) ! length pre = a'" using out(2) by (metis nth_append_length)
    moreover have "length Ox \<le> length pre" "length pre - length Ox < length u + length v"
      using l cross(2) by (cases u; simp)+
    then have "(Ox @ replicate (length u + length v) star @ Z) ! length pre = star"
      by (simp add: nth_append)
    ultimately show ?thesis using e out(1) a' by simp
  qed
qed

lemma mask_simple_keeps_space:
  assumes "list_all (nofirst space_ranges) ps" and sp: "in_ranges space_ranges c"
    and "mask_simple ps (pre @ a # c # rest) = A @ a' # c' # B" "length A = length pre"
    and "a' \<noteq> star"
  shows "c' = c"
  using assms(1,3,4)
proof (induction ps arbitrary: pre a rest)
  case Nil
  then show ?case by (simp add: mask_simple_def)
next
  case (Cons r ps)
  define s1 where "s1 = ReplaceAllStringFunc r (pre @ a # c # rest) maskRunes"
  have fin: "mask_simple ps s1 = A @ a' # c' # B"
    using Cons.prems(2) by (simp add: mask_simple_def s1_def)
  have "length s1 = length (pre @ a # c # rest)"
    unfolding s1_def by (rule masks_of_length [OF replace_maskRunes])
  then have "length pre + 2 \<le> length s1" by simp
  from split_at2 [OF this] obtain A1 a1 c1 B1 where
    s1: "s1 = A1 @ a1 # c1 # B1" "length A1 = length pre" by blast
  have "masks_of (A1 @ a1 # c1 # B1) (A @ a' # c' # B)"
    using mask_simple_masks_of [of s1 ps] fin s1(1) by simp
  from masks_of_at [OF this] have "a1 \<noteq> star" using \<open>a' \<noteq> star\<close> Cons.prems(3) s1(2) by auto
  have nf: "nofirst space_ranges r" "list_all (nofirst space_ranges) ps"
    using Cons.prems(1) by simp_all
  have "c1 = c"
    by (rule pass_keeps_space [OF nf(1) sp s1(1) [unfolded s1_def] s1(2) \<open>a1 \<noteq> star\<close>])
  then have "mask_simple ps (A1 @ a1 # c # B1) = A @ a' # c' # B" using fin s1(1) by simp
  moreover have "length A = length A1" using Cons.prems(3) s1(2) by simp
  ultimately show ?case using Cons.IH [OF nf(2)] by blast
qed

lemma masks_where_refl: "masks_where P a a"
  by (simp add: masks_where_def list_all2_refl)

lemma masks_where_append:
  "masks_where P a b \<Longrightarrow> masks_where P c d \<Longrightarrow> masks_where P (a @ c) (b @ d)"
  unfolding masks_where_def by (rule list_all2_appendI)

lemma masks_where_segs:
  "(\<And>m. Hit m \<in> set segs \<Longrightarrow> masks_where P m (f m)) \<Longrightarrow>
     masks_where P (concat (map seg_src segs)) (concat (map (seg_out f) segs))"
proof (induction segs)
  case Nil
  then show ?case by (simp add: masks_where_refl)
next
  case (Cons sg segs)
  have "masks_where P (seg_src sg) (seg_out f sg)"
    using Cons.prems by (cases sg) (simp_all add: masks_where_refl)
  moreover have "masks_where P (concat (map seg_src segs)) (concat (map (seg_out f) segs))"
    using Cons by simp
  ultimately show ?case by (simp add: masks_where_append)
qed

lemma name_pass_where:
  "masks_where (in_ranges cjk_ranges) s (ReplaceAllStringFunc namePattern s name_repl)"
proof -
  have "masks_where (in_ranges cjk_ranges) m (name_repl m)"
    if "Hit m \<in> set (scan namePattern None s)" for m
  proof -
    from name_hit [OF that] obtain kw sep ws nm where n: "kw \<in> set nameKeywords"
      "sep = 58 \<or> sep = 65306" "\<forall>c\<in>set ws. in_ranges space_ranges c"
      "\<forall>c\<in>set nm. in_ranges cjk_ranges c" "2 \<le> length nm" "length nm \<le> 4"
      "m = kw @ sep # ws @ nm" by blast
    have "masks_where (in_ranges cjk_ranges) nm (replicate (length nm) star)"
      using n(4) by (simp add: masks_where_def list_all2_conv_all_nth)
    then have "masks_where (in_ranges cjk_ranges) ((kw @ sep # ws) @ nm)
        ((kw @ sep # ws) @ replicate (length nm) star)"
      by (intro masks_where_append masks_where_refl)
    then show ?thesis using name_repl_shape [OF n(1-6)] n(7) by simp
  qed
  then have "masks_where (in_ranges cjk_ranges) (concat (map seg_src (scan namePattern None s)))
      (concat (map (seg_out name_repl) (scan namePattern None s)))"
    by (rule masks_where_segs)
  then show ?thesis by (simp add: scan_src ReplaceAllStringFunc_def)
qed

lemma MaskPII_keeps_space:
  assumes sp: "in_ranges space_ranges c"
    and out: "MaskPII (pre @ a # c # rest) = A @ a' # c' # B" "length A = length pre"
    and a': "a' \<noteq> star"
  shows "c' = c"
proof -
  define s1 where "s1 = mask_simple simplePatterns (pre @ a # c # rest)"
  have fin: "ReplaceAllStringFunc namePattern s1 name_repl = A @ a' # c' # B"
    using out(1) by (simp add: MaskPII_def s1_def)
  have "length s1 = length (pre @ a # c # rest)"
    unfolding s1_def by (rule masks_of_length [OF mask_simple_masks_of])
  then have "length pre + 2 \<le> length s1" by simp
  from split_at2 [OF this] obtain A1 a1 c1 B1 where
    s1: "s1 = A1 @ a1 # c1 # B1" "length A1 = length pre" by blast
  have w: "masks_where (in_ranges cjk_ranges) (A1 @ a1 # c1 # B1) (A @ a' # c' # B)"
    using name_pass_where [of s1] fin s1(1) by simp
  from masks_where_at [OF this] have "a1 \<noteq> star" using a' out(2) s1(2) by auto
  have c1: "c1 = c"
    by (rule mask_simple_keeps_space [OF nofirst_simple sp s1(1) [unfolded s1_def] s1(2)
          \<open>a1 \<noteq> star\<close>])
  have "masks_where (in_ranges cjk_ranges) ((A1 @ [a1]) @ c1 # B1) ((A @ [a']) @ c' # B)"
    using w by simp
  from masks_where_at [OF this] have "c' = c1 \<or> in_ranges cjk_ranges c1"
    using out(2) s1(2) by auto
  then show ?thesis using c1 sp cjk_not_space by blast
qed

text \<open>
  A match of the Bearer rule in the output has its word and its white space unmasked. In
  the input the same word and white space stood there, followed by a rune that is not
  white space (a white-space rune there would have been masked without the rune before
  it): a Bearer phrase, whose word \<open>MaskPII\<close> masks.
\<close>

lemma bearer_no_hit_output: "Hit m \<notin> set (scan bearerPattern None (MaskPII t))"
proof
  define u where "u = MaskPII t"
  assume "Hit m \<in> set (scan bearerPattern None (MaskPII t))"
  then have h: "Hit m \<in> set (scan bearerPattern None u)" by (simp add: u_def)
  from scan_hit_ctx [OF h] obtain pre_u rest_u st xs where
    u: "u = pre_u @ m @ rest_u" "rmatch bearerPattern (ctx None pre_u, m @ rest_u, []) = st # xs"
      "rest_of st = rest_u" "m \<noteq> []" by blast
  obtain p' s' g' where st: "st = (p', s', g')" by (cases st)
  have "(p', rest_u, g') \<in> set (rmatch bearerPattern (ctx None pre_u, m @ rest_u, []))"
    using u(2,3) st by (simp add: rest_of_def)
  from bearer_mem [OF this] obtain b ws tok where
    m: "m @ rest_u = b @ ws @ tok @ rest_u" and b: "bearer_word b"
    and ws: "ws \<noteq> []" "\<forall>c\<in>set ws. in_ranges space_ranges c"
    and tok: "tok \<noteq> []" "\<forall>c\<in>set tok. \<not> in_ranges space_ranges c" by blast
  have ue: "u = pre_u @ b @ ws @ tok @ rest_u" using u(1) m by simp
  have mo: "masks_of t u" unfolding u_def by (rule MaskPII_masks_of)
  from masks_of_app_r [OF mo [unfolded ue]] obtain pre_0 x1 where
    a: "t = pre_0 @ x1" "masks_of x1 (b @ ws @ tok @ rest_u)" "length pre_0 = length pre_u"
    by blast
  from masks_of_app_r [OF a(2)] obtain b_0 x2 where
    b0: "x1 = b_0 @ x2" "masks_of b_0 b" "masks_of x2 (ws @ tok @ rest_u)" by blast
  from masks_of_app_r [OF b0(3)] obtain ws_0 x3 where
    w0: "x2 = ws_0 @ x3" "masks_of ws_0 ws" "masks_of x3 (tok @ rest_u)" by blast
  from masks_of_app_r [OF w0(3)] obtain tok_0 rest_0 where
    t0: "x3 = tok_0 @ rest_0" "masks_of tok_0 tok" by blast
  have sb: "star \<notin> set b" using b unfolding bearer_word_cases by (auto simp: star_def)
  have "\<not> in_ranges space_ranges star" by code_simp
  then have sw: "star \<notin> set ws" using ws(2) by blast
  have be: "b_0 = b" by (rule masks_of_no_star [OF b0(2) sb])
  have we: "ws_0 = ws" by (rule masks_of_no_star [OF w0(2) sw])
  have "length tok_0 = length tok" using masks_of_length [OF t0(2)] by simp
  then obtain c0 tk0 where tk0: "tok_0 = c0 # tk0" using tok(1) by (cases tok_0) auto
  obtain c1 tk1 where tk1: "tok = c1 # tk1" using tok(1) by (cases tok) auto
  have te: "t = pre_0 @ b @ ws @ [c0] @ tk0 @ rest_0"
    using a(1) b0(1) w0(1) t0(1) be we tk0 by simp
  show False
  proof (cases "in_ranges space_ranges c0")
    case False
    then have "\<forall>c\<in>set [c0]. \<not> in_ranges space_ranges c" by simp
    from bearer_word_masked [OF b ws _ this, of pre_0 "tk0 @ rest_0"]
    obtain X Y where X: "MaskPII (pre_0 @ b @ ws @ [c0] @ tk0 @ rest_0)
        = X @ replicate (length b) star @ Y" "length X = length pre_0" by auto
    have "pre_u @ b @ ws @ tok @ rest_u = X @ replicate (length b) star @ Y"
      using X(1) te ue u_def by simp
    moreover have "length pre_u = length X" using X(2) a(3) by simp
    ultimately have "b @ ws @ tok @ rest_u = replicate (length b) star @ Y" by simp
    then have "b = replicate (length b) star" by (simp add: append_eq_append_conv)
    moreover have "b \<noteq> []" using bearer_word_props(1) [OF b] .
    ultimately have "star \<in> set b" by (metis length_greater_0_conv nth_mem nth_replicate)
    then show False using sb by simp
  next
    case True
    have wl: "ws = butlast ws @ [last ws]" using ws(1) by simp
    have t2: "t = (pre_0 @ b @ butlast ws) @ last ws # c0 # (tk0 @ rest_0)"
      using te wl by (metis append.assoc append_Cons append_Nil)
    have u2: "u = (pre_u @ b @ butlast ws) @ last ws # c1 # (tk1 @ rest_u)"
      using ue wl tk1 by (metis append.assoc append_Cons append_Nil)
    have "last ws \<in> set ws" using ws(1) by simp
    then have "last ws \<noteq> star" using sw by metis
    moreover have "length (pre_u @ b @ butlast ws) = length (pre_0 @ b @ butlast ws)"
      using a(3) by simp
    moreover have "MaskPII ((pre_0 @ b @ butlast ws) @ last ws # c0 # (tk0 @ rest_0))
        = (pre_u @ b @ butlast ws) @ last ws # c1 # (tk1 @ rest_u)"
      using t2 u2 u_def by simp
    ultimately have "c1 = c0" using MaskPII_keeps_space [OF True] by blast
    then show False using True tok(2) tk1 by simp
  qed
qed


lemma name_out_prefix:
  assumes "scan namePattern p s = X @ Z"
  shows "length (concat (map (seg_out name_repl) X)) = length (concat (map seg_src X))"
proof -
  have "masks_of m (name_repl m)" if "Hit m \<in> set X" for m
  proof -
    have "Hit m \<in> set (scan namePattern p s)" using that assms by simp
    then show ?thesis by (rule name_hit_masks_of)
  qed
  then have "masks_of (concat (map seg_src X)) (concat (map (seg_out name_repl) X))"
    by (rule masks_of_segs)
  then show ?thesis by (rule masks_of_length)
qed

text \<open>
  Where a keyword, a separator, white space and at least two ideographs stand in the
  text that the name pass searches, the pass masks the first of the ideographs or, by an
  earlier match that reaches into the keyword, the first rune of the keyword.
\<close>

lemma name_pass_masks:
  assumes kw: "kw \<in> set nameKeywords" and sep: "sep = 58 \<or> sep = 65306"
    and ws: "\<forall>c\<in>set ws. in_ranges space_ranges c"
    and nm: "\<forall>c\<in>set nm. in_ranges cjk_ranges c" "2 \<le> length nm"
  shows "\<exists>A B. ReplaceAllStringFunc namePattern (pre @ kw @ sep # ws @ nm @ rest) name_repl
             = A @ star # B \<and>
           (length A = length pre \<or> length A = length (pre @ kw @ sep # ws))"
proof -
  define K where "K = kw @ sep # ws @ nm @ rest"
  from scan_cut [of pre namePattern None K]
  consider (reach) X where "concat (map seg_src X) = pre"
      "scan namePattern None (pre @ K) = X @ scan namePattern (ctx None pre) K"
    | (cross) X u v w st xs where "pre = concat (map seg_src X) @ u" "u \<noteq> []" "v \<noteq> []"
      "K = v @ w"
      "scan namePattern None (pre @ K) = X @ Hit (u @ v) # scan namePattern (Some (last (u @ v))) w"
      "rmatch namePattern (ctx None (concat (map seg_src X)), u @ v @ w, []) = st # xs"
      "rest_of st = w"
    by blast
  then show ?thesis
  proof cases
    case reach
    define run where "run = nm @ takeWhile (in_ranges cjk_ranges) rest"
    define nm1 where "nm1 = take 4 run"
    define rest1 where "rest1 = drop 4 run @ dropWhile (in_ranges cjk_ranges) rest"
    have "nm1 @ rest1 = (take 4 run @ drop 4 run) @ dropWhile (in_ranges cjk_ranges) rest"
      by (simp add: nm1_def rest1_def)
    also have "\<dots> = run @ dropWhile (in_ranges cjk_ranges) rest"
      by (simp only: append_take_drop_id)
    also have "\<dots> = nm @ rest" by (simp add: run_def)
    finally have e: "nm @ rest = nm1 @ rest1" by simp
    have rc: "\<forall>c\<in>set run. in_ranges cjk_ranges c"
      using nm(1) by (auto simp: run_def dest: set_takeWhileD)
    have c1: "\<forall>c\<in>set nm1. in_ranges cjk_ranges c"
      using rc by (auto simp: nm1_def dest: in_set_takeD)
    have "2 \<le> length run" using nm(2) by (simp add: run_def)
    then have l1: "2 \<le> length nm1" "length nm1 \<le> 4" by (simp_all add: nm1_def)
    have mx: "length nm1 = 4 \<or> rest1 = [] \<or> \<not> in_ranges cjk_ranges (hd rest1)"
    proof (cases "4 \<le> length run")
      case True
      then show ?thesis by (simp add: nm1_def)
    next
      case False
      then have "rest1 = dropWhile (in_ranges cjk_ranges) rest" by (simp add: rest1_def)
      then show ?thesis using hd_dropWhile [of "in_ranges cjk_ranges" rest] by auto
    qed
    have z: "kw @ sep # ws @ nm1 \<noteq> []" by simp
    have "first namePattern (ctx None pre, (kw @ sep # ws @ nm1) @ rest1, [])
        (Some (last nm1), rest1, (2, nm1) # (1, kw @ sep # ws) # [])"
      using name_first [OF kw sep ws c1 l1 mx, of "ctx None pre" "[]"] by simp
    from scan_first [OF this z]
    have "scan namePattern (ctx None pre) K
        = Hit (kw @ sep # ws @ nm1) # scan namePattern (Some (last (kw @ sep # ws @ nm1))) rest1"
      using e by (simp add: K_def)
    then have "ReplaceAllStringFunc namePattern (pre @ K) name_repl
        = concat (map (seg_out name_repl) X) @ name_repl (kw @ sep # ws @ nm1)
            @ concat (map (seg_out name_repl)
                (scan namePattern (Some (last (kw @ sep # ws @ nm1))) rest1))"
      using reach(2) by (simp add: ReplaceAllStringFunc_def)
    moreover have "name_repl (kw @ sep # ws @ nm1)
        = (kw @ sep # ws) @ star # replicate (length nm1 - 1) star"
      using name_repl_shape [OF kw sep ws c1 l1] l1(1) by (cases nm1) simp_all
    ultimately have "ReplaceAllStringFunc namePattern (pre @ K) name_repl
        = (concat (map (seg_out name_repl) X) @ kw @ sep # ws) @ star
            # (replicate (length nm1 - 1) star @ concat (map (seg_out name_repl)
                (scan namePattern (Some (last (kw @ sep # ws @ nm1))) rest1)))"
      by simp
    moreover have "length (concat (map (seg_out name_repl) X) @ kw @ sep # ws)
        = length (pre @ kw @ sep # ws)"
      using name_out_prefix [OF reach(2)] reach(1) by simp
    ultimately show ?thesis unfolding K_def by blast
  next
    case cross
    have m: "rmatch namePattern (ctx None (concat (map seg_src X)),
        u @ kw @ sep # (ws @ nm @ rest), []) = st # xs"
      using cross(4,6) by (simp add: K_def)
    have "length (rest_of st) < length (v @ w)" using cross(3,7) by (cases v) simp_all
    then have short: "length (rest_of st) < length (kw @ sep # (ws @ nm @ rest))"
      using cross(4) by (simp add: K_def)
    from name_straddle [OF kw sep cross(2) m short] obtain kw' sep' ws' v4 t2 where
      a: "u = kw' @ sep' # ws' @ v4" "kw' \<in> set nameKeywords" "sep' = 58 \<or> sep' = 65306"
        "\<forall>c\<in>set ws'. in_ranges space_ranges c" "\<forall>c\<in>set (v4 @ t2). in_ranges cjk_ranges c"
        "2 \<le> length (v4 @ t2)" "length (v4 @ t2) \<le> 4" "t2 \<noteq> []"
        "kw @ sep # (ws @ nm @ rest) = t2 @ rest_of st" by blast
    have "v @ w = t2 @ w" using a(9) cross(4,7) by (simp add: K_def)
    then have vt: "v = t2" by simp
    have "name_repl (kw' @ sep' # ws' @ (v4 @ t2))
        = kw' @ sep' # ws' @ replicate (length (v4 @ t2)) star"
      by (rule name_repl_shape [OF a(2,3,4,5,6,7)])
    moreover have "replicate (length (v4 @ t2)) star
        = replicate (length v4) star @ star # replicate (length t2 - 1) star"
      using a(8) by (cases t2) (simp_all add: replicate_add replicate_append_same)
    ultimately have "name_repl (u @ v)
        = (kw' @ sep' # ws' @ replicate (length v4) star) @ star # replicate (length t2 - 1) star"
      using a(1) vt by simp
    then have "ReplaceAllStringFunc namePattern (pre @ K) name_repl
        = (concat (map (seg_out name_repl) X) @ kw' @ sep' # ws' @ replicate (length v4) star)
            @ star # (replicate (length t2 - 1) star @ concat (map (seg_out name_repl)
                (scan namePattern (Some (last (u @ v))) w)))"
      using cross(5) by (simp add: ReplaceAllStringFunc_def)
    moreover have "length (concat (map (seg_out name_repl) X) @ kw' @ sep' # ws'
        @ replicate (length v4) star) = length pre"
      using name_out_prefix [OF cross(5)] cross(1) a(1) by simp
    ultimately show ?thesis unfolding K_def by blast
  qed
qed

lemma name_no_hit_output: "Hit m \<notin> set (scan namePattern None (MaskPII t))"
proof
  define u where "u = MaskPII t"
  assume "Hit m \<in> set (scan namePattern None (MaskPII t))"
  then have h: "Hit m \<in> set (scan namePattern None u)" by (simp add: u_def)
  from scan_hit_ctx [OF h] obtain pre_u rest_u st xs where
    u: "u = pre_u @ m @ rest_u" by blast
  from name_hit [OF h] obtain kw sep ws nm where n: "kw \<in> set nameKeywords"
    "sep = 58 \<or> sep = 65306" "\<forall>c\<in>set ws. in_ranges space_ranges c"
    "\<forall>c\<in>set nm. in_ranges cjk_ranges c" "2 \<le> length nm" "length nm \<le> 4"
    "m = kw @ sep # ws @ nm" by blast
  have "\<not> accepts namePattern star" using not_accepts_star by simp
  from hit_no_star [OF this h] have nsm: "star \<notin> set m" .
  define s9 where "s9 = mask_simple simplePatterns t"
  have ue: "u = ReplaceAllStringFunc namePattern s9 name_repl"
    by (simp add: u_def s9_def MaskPII_def)
  have mo: "masks_of s9 u" unfolding ue by (rule replace_masks_of) (rule name_hit_masks_of)
  from masks_of_app_r [OF mo [unfolded u]] obtain pre_9 mr where
    a: "s9 = pre_9 @ mr" "masks_of mr (m @ rest_u)" "length pre_9 = length pre_u" by blast
  from masks_of_app_r [OF a(2)] obtain m9 rest_9 where
    b: "mr = m9 @ rest_9" "masks_of m9 m" by blast
  have "m9 = m" by (rule masks_of_no_star [OF b(2) nsm])
  then have s9e: "s9 = pre_9 @ kw @ sep # ws @ nm @ rest_9" using a(1) b(1) n(7) by simp
  from name_pass_masks [OF n(1-5), of pre_9 rest_9] obtain A B where
    A: "u = A @ star # B" "length A = length pre_9 \<or> length A = length (pre_9 @ kw @ sep # ws)"
    using ue s9e by auto
  from A(2) show False
  proof
    assume "length A = length pre_9"
    then have "length A = length pre_u" using a(3) by simp
    moreover have "A @ star # B = pre_u @ kw @ sep # ws @ nm @ rest_u" using A(1) u n(7) by simp
    ultimately have "star # B = kw @ sep # ws @ nm @ rest_u" by simp
    then have "star \<in> set (kw @ [sep])" by (cases kw) auto
    then show False using nsm n(7) by auto
  next
    assume "length A = length (pre_9 @ kw @ sep # ws)"
    then have "length A = length (pre_u @ kw @ sep # ws)" using a(3) by simp
    moreover have "A @ star # B = (pre_u @ kw @ sep # ws) @ nm @ rest_u"
      using A(1) u n(7) by simp
    ultimately have "star # B = nm @ rest_u" by (metis append_eq_append_conv)
    then have "star \<in> set nm" using n(5) by (cases nm) auto
    then show False using nsm n(7) by auto
  qed
qed

lemma no_hit_segs: "(\<And>m. Hit m \<notin> set X) \<Longrightarrow> X = map Keep (concat (map seg_src X))"
proof (induction X)
  case Nil
  then show ?case by simp
next
  case (Cons sg X)
  then have "X = map Keep (concat (map seg_src X))" by simp
  moreover obtain c where "sg = Keep c" using Cons.prems [of "seg_src sg"] by (cases sg) auto
  ultimately show ?case by simp
qed

lemma no_hit_scan: "(\<And>m. Hit m \<notin> set (scan r p s)) \<Longrightarrow> scan r p s = map Keep s"
  using no_hit_segs [of "scan r p s"] by (simp add: scan_src)

text \<open>
  So no pattern of the file has a match in such an output, and a second application
  changes nothing.
\<close>

lemma second_run_no_hit:
  assumes "\<not> mask_at_word (MaskPII t)" "r \<in> set (simplePatterns @ [namePattern])"
  shows "scan r None (MaskPII t) = map Keep (MaskPII t)"
proof (rule no_hit_scan)
  fix m
  from assms(2) consider "r = namePattern" | "r = bearerPattern" | "r \<in> set (tl simplePatterns)"
    by (auto simp: simplePatterns_def)
  then show "Hit m \<notin> set (scan r None (MaskPII t))"
  proof cases
    case 1
    then show ?thesis by (simp add: name_no_hit_output)
  next
    case 2
    then show ?thesis by (simp add: bearer_no_hit_output)
  next
    case 3
    then have ns: "\<not> accepts r star" using not_accepts_star unfolding list_all_iff by auto
    have "r \<in> set simplePatterns" using 3 by (auto simp: simplePatterns_def)
    then obtain k where k: "k < length simplePatterns" "simplePatterns ! k = r"
      by (auto simp: in_set_conv_nth)
    show ?thesis using simple_no_hit_output [OF k(1) _ assms(1), of m] ns k(2) by simp
  qed
qed

lemma second_run_unchanged:
  assumes "\<not> mask_at_word (MaskPII t)"
  shows "MaskPII (MaskPII t) = MaskPII t"
proof (rule MaskPII_no_hit)
  show "list_all (\<lambda>r. scan r None (MaskPII t) = map Keep (MaskPII t))
      (simplePatterns @ [namePattern])"
    unfolding list_all_iff using second_run_no_hit [OF assms] by blast
qed

section \<open>The claims\<close>

subsection \<open>Length of a mask\<close>

text \<open>
  C2. A span that a whole-match rule matches is replaced by mask characters only, as many
  as the span has code points; the mask of the empty span is empty, and the count is in
  code points: the mask of \<open>h\<close> has as many bytes as \<open>h\<close> has code points. In a run of
  \<open>MaskPII\<close> on \<open>t\<close> the pass of rule \<open>k + 1\<close> searches \<open>pass_input k t\<close>, which has the
  length of \<open>t\<close>. Whenever this search finds a match \<open>m\<close> behind the segments \<open>X\<close> and
  before the segments \<open>Y\<close>, the pass puts \<open>maskRunes m\<close> in the place of \<open>m\<close>, and the output
  of \<open>MaskPII\<close> has, at the offset of \<open>m\<close>, exactly \<open>RuneCountInString m\<close> mask characters:
  the later passes and the name rule leave them as they are.
\<close>

theorem mask_length_preserved:
  "maskRunes [] = [] \<and>
   set (maskRunes h) \<subseteq> {star} \<and>
   RuneCountInString (maskRunes h) = RuneCountInString h \<and>
   byte_len (maskRunes h) = RuneCountInString h \<and>
   pass_input 0 t = t \<and>
   MaskPII t = ReplaceAllStringFunc namePattern (pass_input (length simplePatterns) t) name_repl \<and>
   length (MaskPII t) = length t \<and>
   (k < length simplePatterns \<longrightarrow>
      pass_input (Suc k) t
        = ReplaceAllStringFunc (simplePatterns ! k) (pass_input k t) maskRunes \<and>
      length (pass_input k t) = length t) \<and>
   (k < length simplePatterns \<and>
    scan (simplePatterns ! k) None (pass_input k t) = X @ Hit m # Y \<longrightarrow>
      pass_input k t = concat (map seg_src X) @ m @ concat (map seg_src Y) \<and>
      pass_input (Suc k) t
        = concat (map (seg_out maskRunes) X) @ maskRunes m @ concat (map (seg_out maskRunes) Y) \<and>
      length (concat (map (seg_out maskRunes) X)) = length (concat (map seg_src X)) \<and>
      (\<exists>A B. MaskPII t = A @ replicate (RuneCountInString m) star @ B \<and>
              length A = length (concat (map seg_src X)) \<and>
              length B = length (concat (map seg_src Y))))"
proof -
  have "maskRunes [] = []"
    by (simp add: maskRunes_def RuneCountInString_def)
  moreover have "set (maskRunes h) \<subseteq> {star}"
    by (auto simp: maskRunes_def)
  moreover have "RuneCountInString (maskRunes h) = RuneCountInString h"
    by (simp add: maskRunes_def RuneCountInString_def)
  moreover have "byte_len (maskRunes h) = RuneCountInString h"
    by (simp add: maskRunes_def byte_len_stars)
  moreover have "pass_input 0 t = t" by (rule pass_input_0)
  moreover have "MaskPII t
      = ReplaceAllStringFunc namePattern (pass_input (length simplePatterns) t) name_repl"
    by (rule pass_input_all)
  moreover have "length (MaskPII t) = length t"
    by (rule masks_of_length [OF MaskPII_masks_of])
  moreover have "k < length simplePatterns \<longrightarrow>
      pass_input (Suc k) t
        = ReplaceAllStringFunc (simplePatterns ! k) (pass_input k t) maskRunes \<and>
      length (pass_input k t) = length t"
    using pass_input_Suc [of k t] pass_input_length [of k t] by simp
  moreover have "k < length simplePatterns \<and>
    scan (simplePatterns ! k) None (pass_input k t) = X @ Hit m # Y \<longrightarrow>
      pass_input k t = concat (map seg_src X) @ m @ concat (map seg_src Y) \<and>
      pass_input (Suc k) t
        = concat (map (seg_out maskRunes) X) @ maskRunes m @ concat (map (seg_out maskRunes) Y) \<and>
      length (concat (map (seg_out maskRunes) X)) = length (concat (map seg_src X)) \<and>
      (\<exists>A B. MaskPII t = A @ replicate (RuneCountInString m) star @ B \<and>
              length A = length (concat (map seg_src X)) \<and>
              length B = length (concat (map seg_src Y)))"
  proof (intro impI, elim conjE)
    assume k: "k < length simplePatterns"
      and sc: "scan (simplePatterns ! k) None (pass_input k t) = X @ Hit m # Y"
    have "pass_input (Suc k) t
        = concat (map (seg_out maskRunes) X) @ maskRunes m @ concat (map (seg_out maskRunes) Y)"
      using pass_input_Suc [OF k, of t] replace_at_hit(1) [OF sc]
      by (simp add: maskRunes_replicate)
    moreover note replace_at_hit(2) [OF sc] out_length [of X]
    moreover have "\<exists>A B. MaskPII t = A @ replicate (RuneCountInString m) star @ B \<and>
              length A = length (concat (map seg_src X)) \<and>
              length B = length (concat (map seg_src Y))"
      using hit_masked_in_output [OF k sc] by (simp add: RuneCountInString_def)
    ultimately show "pass_input k t = concat (map seg_src X) @ m @ concat (map seg_src Y) \<and>
      pass_input (Suc k) t
        = concat (map (seg_out maskRunes) X) @ maskRunes m @ concat (map (seg_out maskRunes) Y) \<and>
      length (concat (map (seg_out maskRunes) X)) = length (concat (map seg_src X)) \<and>
      (\<exists>A B. MaskPII t = A @ replicate (RuneCountInString m) star @ B \<and>
              length A = length (concat (map seg_src X)) \<and>
              length B = length (concat (map seg_src Y)))"
      by (intro conjI)
  qed
  ultimately show ?thesis by (intro conjI)
qed

theorem mask_length_preserved_witness:
  "7 < length simplePatterns \<and>
   scan (simplePatterns ! 7) None (pass_input 7 [65, 26847, 49, 50, 45, 51, 23460])
     = map Keep [65, 26847] @ Hit [49, 50, 45, 51, 23460] # [] \<and>
   (\<exists>A B. MaskPII [65, 26847, 49, 50, 45, 51, 23460] = A @ replicate 5 star @ B \<and>
           length A = 2 \<and> length B = 0) \<and>
   byte_len [49, 50, 45, 51, 23460] = 7"
proof -
  have k: "7 < length simplePatterns" by (simp add: simplePatterns_def)
  have sc: "scan (simplePatterns ! 7) None (pass_input 7 [65, 26847, 49, 50, 45, 51, 23460])
     = map Keep [65, 26847] @ Hit [49, 50, 45, 51, 23460] # []"
    by code_simp
  have "\<exists>A B. MaskPII [65, 26847, 49, 50, 45, 51, 23460]
          = A @ replicate (RuneCountInString [49, 50, 45, 51, 23460]) star @ B \<and>
        length A = length (concat (map seg_src (map Keep [65, 26847]))) \<and>
        length B = length (concat (map seg_src []))"
    using mask_length_preserved [where t = "[65, 26847, 49, 50, 45, 51, 23460]" and k = 7
        and X = "map Keep [65, 26847]" and m = "[49, 50, 45, 51, 23460]" and Y = "[]"] k sc
    by blast
  moreover have "RuneCountInString [49, 50, 45, 51, 23460] = 5"
    "length (concat (map seg_src (map Keep [65, 26847]))) = 2"
    "length (concat (map seg_src [])) = 0"
    by (simp_all add: RuneCountInString_def)
  ultimately have "\<exists>A B. MaskPII [65, 26847, 49, 50, 45, 51, 23460] = A @ replicate 5 star @ B \<and>
           length A = 2 \<and> length B = 0"
    by (simp only:)
  moreover have "byte_len [49, 50, 45, 51, 23460] = 7" by code_simp
  ultimately show ?thesis using k sc by (intro conjI)
qed

subsection \<open>Names\<close>

text \<open>
  C5. The name after a keyword is masked and the keyword stays. For the first keyword
  (U+59D3 U+540D), the full-width colon and the two ideographs U+6B50 U+7F8E the output
  is keyword and colon followed by two mask characters; for the second keyword
  (U+7533 U+8ACB U+4EBA), the colon and U+6B50 U+7F8E U+9E97 it is keyword and colon
  followed by three mask characters. The ten ideographs of the third text (U+53F0 U+5317
  U+5E02 U+4E2D U+6B63 U+5340 U+5FE0 U+5B5D U+6771 U+8DEF), which has no keyword, come
  back as they are.
\<close>

theorem name_keyword_anchoring:
  "MaskPII [22995, 21517, 65306, 27472, 32654] = [22995, 21517, 65306] @ replicate 2 star \<and>
   MaskPII [30003, 35531, 20154, 65306, 27472, 32654, 40599]
     = [30003, 35531, 20154, 65306] @ replicate 3 star \<and>
   MaskPII [21488, 21271, 24066, 20013, 27491, 21312, 24544, 23389, 26481, 36335]
     = [21488, 21271, 24066, 20013, 27491, 21312, 24544, 23389, 26481, 36335]"
proof -
  have "MaskPII [22995, 21517, 65306, 27472, 32654] = [22995, 21517, 65306] @ replicate 2 star"
    by code_simp
  moreover have "MaskPII [30003, 35531, 20154, 65306, 27472, 32654, 40599]
      = [30003, 35531, 20154, 65306] @ replicate 3 star"
    by code_simp
  moreover have "MaskPII [21488, 21271, 24066, 20013, 27491, 21312, 24544, 23389, 26481, 36335]
      = [21488, 21271, 24066, 20013, 27491, 21312, 24544, 23389, 26481, 36335]"
    by code_simp
  ultimately show ?thesis by (intro conjI)
qed



subsection \<open>Single rules on the examples of the specification\<close>

text \<open>
  C6. \<^verbatim>\<open>Email: user@example.com\<close> gives \<^verbatim>\<open>Email: \<close> and 16 mask characters,
  \<^verbatim>\<open>Phone: 0912345678\<close> gives \<^verbatim>\<open>Phone: \<close> and 10 mask characters, and
  \<^verbatim>\<open>Tel: (02)1234-5678\<close> gives \<^verbatim>\<open>Tel: \<close> and 13 mask characters.
\<close>

theorem email_phone_landline_cases:
  "MaskPII (ascii ''Email: user@example.com'') = ascii ''Email: '' @ replicate 16 star \<and>
   MaskPII (ascii ''Phone: 0912345678'') = ascii ''Phone: '' @ replicate 10 star \<and>
   MaskPII (ascii ''Tel: (02)1234-5678'') = ascii ''Tel: '' @ replicate 13 star"
proof -
  have "MaskPII (ascii ''Email: user@example.com'') = ascii ''Email: '' @ replicate 16 star"
    by code_simp
  moreover have "MaskPII (ascii ''Phone: 0912345678'') = ascii ''Phone: '' @ replicate 10 star"
    by code_simp
  moreover have "MaskPII (ascii ''Tel: (02)1234-5678'') = ascii ''Tel: '' @ replicate 13 star"
    by code_simp
  ultimately show ?thesis by (intro conjI)
qed

text \<open>
  C7. The text is U+5730 U+5740 U+FF1A U+5FE0 U+5B5D U+6771 U+8DEF, then \<^verbatim>\<open>3\<close> U+865F and
  \<^verbatim>\<open>5\<close> U+6A13. The address rule finds the two matches \<^verbatim>\<open>3\<close> U+865F and \<^verbatim>\<open>5\<close> U+6A13,
  one after the other, and each becomes two mask characters; the seven runes before
  them are kept, so that the output is these seven runes followed by four mask
  characters.
\<close>

theorem address_two_matches:
  "scan addressPattern None
       [22320, 22336, 65306, 24544, 23389, 26481, 36335, 51, 34399, 53, 27155]
     = map Keep [22320, 22336, 65306, 24544, 23389, 26481, 36335]
         @ [Hit [51, 34399], Hit [53, 27155]] \<and>
   MaskPII [22320, 22336, 65306, 24544, 23389, 26481, 36335, 51, 34399, 53, 27155]
     = [22320, 22336, 65306, 24544, 23389, 26481, 36335] @ replicate 2 star @ replicate 2 star"
proof -
  have "scan addressPattern None
       [22320, 22336, 65306, 24544, 23389, 26481, 36335, 51, 34399, 53, 27155]
     = map Keep [22320, 22336, 65306, 24544, 23389, 26481, 36335]
         @ [Hit [51, 34399], Hit [53, 27155]]"
    by code_simp
  moreover have
    "MaskPII [22320, 22336, 65306, 24544, 23389, 26481, 36335, 51, 34399, 53, 27155]
     = [22320, 22336, 65306, 24544, 23389, 26481, 36335] @ replicate 2 star @ replicate 2 star"
    by code_simp
  ultimately show ?thesis by (intro conjI)
qed

subsection \<open>Totality and text without a match\<close>

text \<open>
  C9. \<open>MaskPII\<close> is a total function from texts to texts: every text has an output, which
  is the input with some runes replaced by the mask character (so it has the same
  number of code points), and there is no error value. The empty text gives the empty
  text, \<^verbatim>\<open>Pod started successfully on node worker-1\<close> comes back unchanged, and so
  does every text in which no pattern has a match.
\<close>

theorem MaskPII_total_passthrough:
  "(\<exists>out. MaskPII t = out \<and> masks_of t out \<and> length out = length t) \<and>
   MaskPII [] = [] \<and>
   MaskPII (ascii ''Pod started successfully on node worker-1'')
     = ascii ''Pod started successfully on node worker-1'' \<and>
   (list_all (\<lambda>r. scan r None t = map Keep t) (simplePatterns @ [namePattern])
      \<longrightarrow> MaskPII t = t)"
proof -
  have "MaskPII [] = []" by code_simp
  moreover have "MaskPII (ascii ''Pod started successfully on node worker-1'')
     = ascii ''Pod started successfully on node worker-1''"
    by code_simp
  moreover have "masks_of t (MaskPII t)" by (rule MaskPII_masks_of)
  moreover have "length (MaskPII t) = length t"
    by (rule masks_of_length [OF MaskPII_masks_of])
  ultimately show ?thesis using MaskPII_no_hit [of t] by blast
qed

theorem MaskPII_total_passthrough_witness:
  "list_all (\<lambda>r. scan r None (ascii ''node worker-1'') = map Keep (ascii ''node worker-1''))
     (simplePatterns @ [namePattern]) \<and>
   MaskPII (ascii ''node worker-1'') = ascii ''node worker-1''"
proof -
  have h: "list_all (\<lambda>r. scan r None (ascii ''node worker-1'') = map Keep (ascii ''node worker-1''))
     (simplePatterns @ [namePattern])"
    by code_simp
  from MaskPII_total_passthrough [of "ascii ''node worker-1''"] h
  have "MaskPII (ascii ''node worker-1'') = ascii ''node worker-1''" by blast
  with h show ?thesis by simp
qed

subsection \<open>The order of the passes\<close>

text \<open>
  C3, as stated, fails. On \<^verbatim>\<open>0212-3456-7890-1\<close> the landline rule (dash form) matches
  the first 14 runes and the card rule matches all 16: the two matches overlap. In the
  order of the code the landline pass runs first and \<^verbatim>\<open>-1\<close> is left; with the card
  pass before the landline pass, which is a permutation of the rules 3 to 9, all 16
  runes are masked.
\<close>

theorem order_matters_counterexample:
  "scan landlineDashPattern None (ascii ''0212-3456-7890-1'')
     = [Hit (ascii ''0212-3456-7890''), Keep 45, Keep 49] \<and>
   scan cardPattern None (ascii ''0212-3456-7890-1'') = [Hit (ascii ''0212-3456-7890-1'')] \<and>
   mset [bearerPattern, jwtPattern, idPattern, emailPattern, mobilePattern,
         landlineParenPattern, cardPattern, landlineDashPattern, addressPattern]
     = mset simplePatterns \<and>
   mask_with [bearerPattern, jwtPattern, idPattern, emailPattern, mobilePattern,
              landlineParenPattern, cardPattern, landlineDashPattern, addressPattern]
       (ascii ''0212-3456-7890-1'') = replicate 16 star \<and>
   MaskPII (ascii ''0212-3456-7890-1'') = replicate 14 star @ ascii ''-1''"
proof -
  have "scan landlineDashPattern None (ascii ''0212-3456-7890-1'')
     = [Hit (ascii ''0212-3456-7890''), Keep 45, Keep 49]"
    by code_simp
  moreover have "scan cardPattern None (ascii ''0212-3456-7890-1'')
     = [Hit (ascii ''0212-3456-7890-1'')]"
    by code_simp
  moreover have "mset [bearerPattern, jwtPattern, idPattern, emailPattern, mobilePattern,
         landlineParenPattern, cardPattern, landlineDashPattern, addressPattern]
     = mset simplePatterns"
    by (simp add: simplePatterns_def)
  moreover have "mask_with [bearerPattern, jwtPattern, idPattern, emailPattern, mobilePattern,
              landlineParenPattern, cardPattern, landlineDashPattern, addressPattern]
       (ascii ''0212-3456-7890-1'') = replicate 16 star"
    by code_simp
  moreover have "MaskPII (ascii ''0212-3456-7890-1'') = replicate 14 star @ ascii ''-1''"
    by code_simp
  ultimately show ?thesis by (intro conjI)
qed

text \<open>
  C3, amended. In one run of \<open>MaskPII\<close> the spans that the whole-match passes replace,
  those of the rules 3 to 9 among them, are pairwise disjoint: of two spans of the same
  pass or of two passes, one ends before the other begins. Each pass searches the text
  as the earlier passes have left it (\<open>pass_input\<close>) and turns every span it matches
  into mask characters; a match of one of the rules 2 to 9 is not empty and contains no
  mask character, so no pass matches into a span that an earlier pass has masked. Each
  pass keeps the number of code points and changes runes to the mask character only.
  On the same text the matches of two rules can overlap, and then the order of the code
  decides.
\<close>

theorem rules_3_to_9_disjoint:
  "(i \<le> j \<and> j < length simplePatterns \<and> (a, la) \<in> set (pass_spans i t) \<and>
    (b, lb) \<in> set (pass_spans j t) \<and> (i, a, la) \<noteq> (j, b, lb) \<longrightarrow>
      a + la \<le> b \<or> b + lb \<le> a) \<and>
   (k < length simplePatterns \<and> (a, la) \<in> set (pass_spans k t) \<longrightarrow>
      0 < la \<and> a + la \<le> length t \<and>
      take la (drop a (pass_input (Suc k) t)) = replicate la star) \<and>
   (1 \<le> k \<and> k < length simplePatterns \<and> Hit m \<in> set (scan (simplePatterns ! k) p s) \<longrightarrow>
      m \<noteq> [] \<and> star \<notin> set m) \<and>
   (k < length simplePatterns \<longrightarrow>
      pass_input (Suc k) t
        = ReplaceAllStringFunc (simplePatterns ! k) (pass_input k t) maskRunes \<and>
      length (pass_input k t) = length t \<and>
      masks_of (pass_input k t) (pass_input (Suc k) t)) \<and>
   pass_input 0 t = t \<and>
   MaskPII t = ReplaceAllStringFunc namePattern (pass_input (length simplePatterns) t) name_repl"
proof -
  have "i \<le> j \<and> j < length simplePatterns \<and> (a, la) \<in> set (pass_spans i t) \<and>
    (b, lb) \<in> set (pass_spans j t) \<and> (i, a, la) \<noteq> (j, b, lb) \<longrightarrow>
      a + la \<le> b \<or> b + lb \<le> a"
  proof (intro impI, elim conjE)
    assume ij: "i \<le> j" "j < length simplePatterns"
      and a: "(a, la) \<in> set (pass_spans i t)" and b: "(b, lb) \<in> set (pass_spans j t)"
      and ne: "(i, a, la) \<noteq> (j, b, lb)"
    show "a + la \<le> b \<or> b + lb \<le> a"
    proof (cases "i = j")
      case True
      then have "(a, la) \<noteq> (b, lb)" using ne by simp
      then show ?thesis using spans_disjoint a b True unfolding pass_spans_def by blast
    next
      case False
      then have lt: "i < j" using ij(1) by simp
      then have "1 \<le> j" by simp
      from later_no_star [OF this ij(2)] show ?thesis
        using cross_pass_disjoint [OF lt ij(2) _ a b] by blast
    qed
  qed
  moreover have "k < length simplePatterns \<and> (a, la) \<in> set (pass_spans k t) \<longrightarrow>
      0 < la \<and> a + la \<le> length t \<and>
      take la (drop a (pass_input (Suc k) t)) = replicate la star"
    using span_replaced [of k a la t] by blast
  moreover have "1 \<le> k \<and> k < length simplePatterns \<and>
      Hit m \<in> set (scan (simplePatterns ! k) p s) \<longrightarrow> m \<noteq> [] \<and> star \<notin> set m"
    using later_no_star [of k] hit_no_star [of "simplePatterns ! k" m p s]
      scan_hit_accepts(1) [of m "simplePatterns ! k" p s] by blast
  moreover have "k < length simplePatterns \<longrightarrow>
      pass_input (Suc k) t
        = ReplaceAllStringFunc (simplePatterns ! k) (pass_input k t) maskRunes \<and>
      length (pass_input k t) = length t \<and>
      masks_of (pass_input k t) (pass_input (Suc k) t)"
  proof (intro impI conjI)
    assume k: "k < length simplePatterns"
    show "pass_input (Suc k) t
        = ReplaceAllStringFunc (simplePatterns ! k) (pass_input k t) maskRunes"
      by (rule pass_input_Suc [OF k])
    show "length (pass_input k t) = length t" by (rule pass_input_length)
    show "masks_of (pass_input k t) (pass_input (Suc k) t)" by (rule pass_input_mono) simp
  qed
  moreover have "pass_input 0 t = t" by (rule pass_input_0)
  moreover have "MaskPII t
      = ReplaceAllStringFunc namePattern (pass_input (length simplePatterns) t) name_repl"
    by (rule pass_input_all)
  ultimately show ?thesis by (intro conjI)
qed

theorem rules_3_to_9_disjoint_witness:
  "(6::nat) \<le> 8 \<and> 8 < length simplePatterns \<and>
   simplePatterns ! 6 = landlineDashPattern \<and> simplePatterns ! 8 = cardPattern \<and>
   pass_spans 6 (ascii ''0212-3456-7890 1234-5678-9012-3456'') = [(0, 14)] \<and>
   pass_input 8 (ascii ''0212-3456-7890 1234-5678-9012-3456'')
     = replicate 14 star @ ascii '' 1234-5678-9012-3456'' \<and>
   pass_spans 8 (ascii ''0212-3456-7890 1234-5678-9012-3456'') = [(15, 19)] \<and>
   spans 0 (scan cardPattern None (ascii ''0212-3456-7890 1234-5678-9012-3456''))
     = [(0, 19)] \<and>
   ((0::nat) + 14 \<le> 15 \<or> (15::nat) + 19 \<le> 0) \<and>
   take 14 (drop 0 (pass_input (Suc 6) (ascii ''0212-3456-7890 1234-5678-9012-3456'')))
     = replicate 14 star"
proof -
  have k: "8 < length simplePatterns" "simplePatterns ! 6 = landlineDashPattern"
    "simplePatterns ! 8 = cardPattern"
    by (simp_all add: simplePatterns_def)
  have a: "pass_spans 6 (ascii ''0212-3456-7890 1234-5678-9012-3456'') = [(0, 14)]"
    by code_simp
  have b: "pass_spans 8 (ascii ''0212-3456-7890 1234-5678-9012-3456'') = [(15, 19)]"
    by code_simp
  have c: "pass_input 8 (ascii ''0212-3456-7890 1234-5678-9012-3456'')
     = replicate 14 star @ ascii '' 1234-5678-9012-3456''"
    by code_simp
  have d: "spans 0 (scan cardPattern None (ascii ''0212-3456-7890 1234-5678-9012-3456''))
     = [(0, 19)]"
    by code_simp
  note t = rules_3_to_9_disjoint [where t = "ascii ''0212-3456-7890 1234-5678-9012-3456''"
      and i = 6 and j = 8 and a = 0 and la = 14 and b = 15 and lb = 19 and k = 6]
  have "(0::nat) + 14 \<le> 15 \<or> (15::nat) + 19 \<le> 0"
    by (rule t [THEN conjunct1, THEN mp]) (simp add: k(1) a b)
  moreover have "0 < (14::nat) \<and>
      0 + 14 \<le> length (ascii ''0212-3456-7890 1234-5678-9012-3456'') \<and>
      take 14 (drop 0 (pass_input (Suc 6) (ascii ''0212-3456-7890 1234-5678-9012-3456'')))
        = replicate 14 star"
    by (rule t [THEN conjunct2, THEN conjunct1, THEN mp]) (simp add: a simplePatterns_def)
  ultimately show ?thesis using k a b c d by (intro conjI) simp_all
qed

subsection \<open>A second application\<close>

text \<open>
  C4, as stated, fails. The landline rule (parenthesised form) has no word boundary at
  its end: in \<^verbatim>\<open>(02)1234-5678A123456789\<close> it masks the first 13 runes, and the
  identity number after them is kept, since there is no word boundary between \<^verbatim>\<open>8\<close>
  and \<^verbatim>\<open>A\<close>. The output consists of a run of mask characters and a preserved literal.
  In a second application the mask character before \<^verbatim>\<open>A\<close> is a word boundary, and
  the identity number is masked: the output of the first application is changed.
\<close>

theorem not_idempotent_counterexample:
  "MaskPII (ascii ''(02)1234-5678A123456789'') = replicate 13 star @ ascii ''A123456789'' \<and>
   MaskPII (replicate 13 star @ ascii ''A123456789'') = replicate 23 star \<and>
   MaskPII (replicate 13 star @ ascii ''A123456789'') \<noteq> replicate 13 star @ ascii ''A123456789''"
proof -
  have "MaskPII (ascii ''(02)1234-5678A123456789'') = replicate 13 star @ ascii ''A123456789''"
    by code_simp
  moreover have "MaskPII (replicate 13 star @ ascii ''A123456789'') = replicate 23 star"
    by code_simp
  moreover have "replicate 23 star \<noteq> replicate 13 star @ ascii ''A123456789''"
    by code_simp
  ultimately show ?thesis by simp
qed

text \<open>
  C4, amended. If in the output of \<open>MaskPII\<close> no mask character stands directly before
  or directly after an ASCII word character, a second application returns that output
  unchanged. A text of mask characters only is returned unchanged. No match of the
  rules 2 to 9 or of the name rule contains a mask character, so these passes never
  match inside a masked span; and the Bearer rule and the name rule have no match at
  all in an output of \<open>MaskPII\<close>. What is left are the rules with \<^verbatim>\<open>\b\<close>, for which a
  mask character next to a word character is a new word boundary.
\<close>

theorem mask_runs_stable:
  "(\<not> mask_at_word (MaskPII t) \<longrightarrow> MaskPII (MaskPII t) = MaskPII t) \<and>
   MaskPII (replicate n star) = replicate n star \<and>
   (r \<in> set (tl simplePatterns @ [namePattern]) \<and> Hit m \<in> set (scan r p s) \<longrightarrow>
      star \<notin> set m) \<and>
   Hit m \<notin> set (scan bearerPattern None (MaskPII t)) \<and>
   Hit m \<notin> set (scan namePattern None (MaskPII t))"
proof (intro conjI impI)
  assume "\<not> mask_at_word (MaskPII t)"
  then show "MaskPII (MaskPII t) = MaskPII t" by (rule second_run_unchanged)
next
  have "\<not> is_word star" "\<not> in_ranges cjk_ranges star" by code_simp+
  then show "MaskPII (replicate n star) = replicate n star"
    by (intro no_word_no_cjk_unchanged) auto
next
  assume a: "r \<in> set (tl simplePatterns @ [namePattern]) \<and> Hit m \<in> set (scan r p s)"
  then have "\<not> accepts r star" using not_accepts_star unfolding list_all_iff by blast
  then show "star \<notin> set m" using a hit_no_star by blast
next
  show "Hit m \<notin> set (scan bearerPattern None (MaskPII t))" by (rule bearer_no_hit_output)
  show "Hit m \<notin> set (scan namePattern None (MaskPII t))" by (rule name_no_hit_output)
qed

theorem mask_runs_stable_witness:
  "MaskPII (ascii ''Tel: (02)1234-5678, mail user@example.com.'')
     = ascii ''Tel: '' @ replicate 13 star @ ascii '', mail '' @ replicate 16 star @ ascii ''.'' \<and>
   \<not> mask_at_word (MaskPII (ascii ''Tel: (02)1234-5678, mail user@example.com.'')) \<and>
   MaskPII (MaskPII (ascii ''Tel: (02)1234-5678, mail user@example.com.''))
     = MaskPII (ascii ''Tel: (02)1234-5678, mail user@example.com.'') \<and>
   mask_at_word (MaskPII (ascii ''(02)1234-5678A123456789'')) \<and>
   jwtPattern \<in> set (tl simplePatterns @ [namePattern]) \<and>
   Hit (ascii ''eyJh.b.c'') \<in> set (scan jwtPattern None (ascii ''**eyJh.b.c*'')) \<and>
   star \<notin> set (ascii ''eyJh.b.c'')"
proof -
  have o: "MaskPII (ascii ''Tel: (02)1234-5678, mail user@example.com.'')
     = ascii ''Tel: '' @ replicate 13 star @ ascii '', mail '' @ replicate 16 star @ ascii ''.''"
    by code_simp
  have a: "\<not> mask_at_word (MaskPII (ascii ''Tel: (02)1234-5678, mail user@example.com.''))"
    by code_simp
  have a': "mask_at_word (MaskPII (ascii ''(02)1234-5678A123456789''))"
    by code_simp
  have b: "jwtPattern \<in> set (tl simplePatterns @ [namePattern])"
    by (simp add: simplePatterns_def)
  have c: "Hit (ascii ''eyJh.b.c'') \<in> set (scan jwtPattern None (ascii ''**eyJh.b.c*''))"
    by code_simp
  have "MaskPII (MaskPII (ascii ''Tel: (02)1234-5678, mail user@example.com.''))
     = MaskPII (ascii ''Tel: (02)1234-5678, mail user@example.com.'')"
    using mask_runs_stable [where t = "ascii ''Tel: (02)1234-5678, mail user@example.com.''"] a
    by blast
  moreover have "star \<notin> set (ascii ''eyJh.b.c'')"
    using mask_runs_stable [where r = jwtPattern and m = "ascii ''eyJh.b.c''" and p = None
        and s = "ascii ''**eyJh.b.c*''"] b c
    by blast
  ultimately show ?thesis using o a a' b c by blast
qed

subsection \<open>The Bearer phrase\<close>

text \<open>
  C1, as stated, fails. \<^verbatim>\<open>Bearer Bearer x\<close> contains the phrase \<^verbatim>\<open>Bearer x\<close> (from the
  eighth rune on): the word, white space and the token \<^verbatim>\<open>x\<close>. The search takes the
  first word with the second word as its token and goes on behind it, so the output is
  13 mask characters followed by \<^verbatim>\<open> x\<close>: the token of the phrase is not masked.
\<close>

theorem bearer_overlap_counterexample:
  "ascii ''Bearer Bearer x'' = ascii ''Bearer '' @ ascii ''Bearer'' @ ascii '' '' @ ascii ''x'' \<and>
   bearer_word (ascii ''Bearer'') \<and>
   MaskPII (ascii ''Bearer Bearer x'') = replicate 13 star @ ascii '' x'' \<and>
   drop 7 (MaskPII (ascii ''Bearer Bearer x'')) \<noteq> replicate 8 star"
proof -
  have "ascii ''Bearer Bearer x'' = ascii ''Bearer '' @ ascii ''Bearer'' @ ascii '' '' @ ascii ''x''"
    by code_simp
  moreover have "bearer_word (ascii ''Bearer'')" by code_simp
  moreover have "MaskPII (ascii ''Bearer Bearer x'') = replicate 13 star @ ascii '' x''"
    by code_simp
  moreover have "drop 7 (MaskPII (ascii ''Bearer Bearer x'')) \<noteq> replicate 8 star"
    by code_simp
  ultimately show ?thesis by (intro conjI)
qed

text \<open>
  C1, amended. Let the text contain a Bearer phrase: a word \<open>b\<close> that \<^verbatim>\<open>(?i)Bearer\<close>
  matches, white space \<open>ws\<close> and a token \<open>tok\<close> of runes that are not white space. Then
  in the output of \<open>MaskPII\<close> the word of the phrase is masked: no \<^verbatim>\<open>Bearer\<close> of a phrase
  is left. If the text \<open>pre\<close> before the phrase does not end with another such word,
  white space and a run of runes that are not white space, then the Bearer pass finds
  the phrase, up to the end of its token, as one match, and in the output of \<open>MaskPII\<close>
  the whole phrase is one run of mask characters at the place of the phrase. No match
  of the JWT rule contains a mask character, so the JWT pass does not match any part of
  the masked phrase.
\<close>

theorem bearer_phrase_masked:
  assumes "bearer_word b"
    and "ws \<noteq> []" and "\<forall>c\<in>set ws. in_ranges space_ranges c"
    and "tok \<noteq> []" and "\<forall>c\<in>set tok. \<not> in_ranges space_ranges c"
  shows "(\<exists>X Y. MaskPII (pre @ b @ ws @ tok @ post) = X @ replicate (length b) star @ Y \<and>
             length X = length pre) \<and>
         (\<not> bearer_before pre \<longrightarrow>
            (\<exists>X. scan bearerPattern None (pre @ b @ ws @ tok @ post)
               = X @ Hit (b @ ws @ tok @ takeWhile (\<lambda>c. \<not> in_ranges space_ranges c) post)
                   # scan bearerPattern
                       (Some (last (tok @ takeWhile (\<lambda>c. \<not> in_ranges space_ranges c) post)))
                       (dropWhile (\<lambda>c. \<not> in_ranges space_ranges c) post) \<and>
               concat (map seg_src X) = pre) \<and>
            (\<exists>X Y. MaskPII (pre @ b @ ws @ tok @ post)
               = X @ replicate (length (b @ ws @ tok)) star @ Y \<and>
               length X = length pre \<and> length Y = length post)) \<and>
         (Hit m \<in> set (scan jwtPattern q t) \<longrightarrow> star \<notin> set m)"
proof (intro conjI impI)
  show "\<exists>X Y. MaskPII (pre @ b @ ws @ tok @ post) = X @ replicate (length b) star @ Y \<and>
             length X = length pre"
    by (rule bearer_word_masked [OF assms])
next
  assume nb: "\<not> bearer_before pre"
  show "\<exists>X. scan bearerPattern None (pre @ b @ ws @ tok @ post)
             = X @ Hit (b @ ws @ tok @ takeWhile (\<lambda>c. \<not> in_ranges space_ranges c) post)
                 # scan bearerPattern
                     (Some (last (tok @ takeWhile (\<lambda>c. \<not> in_ranges space_ranges c) post)))
                     (dropWhile (\<lambda>c. \<not> in_ranges space_ranges c) post) \<and>
             concat (map seg_src X) = pre"
    by (rule bearer_scan [OF assms nb])
  show "\<exists>X Y. MaskPII (pre @ b @ ws @ tok @ post)
             = X @ replicate (length (b @ ws @ tok)) star @ Y \<and>
             length X = length pre \<and> length Y = length post"
    by (rule bearer_masked [OF assms nb])
next
  assume h: "Hit m \<in> set (scan jwtPattern q t)"
  have "jwtPattern \<in> set (tl simplePatterns @ [namePattern])"
    by (simp add: simplePatterns_def)
  then have "\<not> accepts jwtPattern star"
    using not_accepts_star unfolding list_all_iff by blast
  then show "star \<notin> set m" using h hit_no_star by blast
qed

theorem bearer_phrase_masked_witness:
  "bearer_word (ascii ''bEARER'') \<and> \<not> bearer_before (ascii ''Authorization: '') \<and>
   (\<exists>X Y. MaskPII (ascii ''Authorization: '' @ ascii ''bEARER'' @ ascii ''  '' @ ascii ''eyJh.b.c''
              @ ascii ''.d A123456789'')
         = X @ replicate 16 star @ Y \<and> length X = 15 \<and> length Y = 13) \<and>
   bearer_before (ascii ''Bearer '') \<and>
   (\<exists>X Y. MaskPII (ascii ''Bearer '' @ ascii ''bEARER'' @ ascii ''  '' @ ascii ''eyJh.b.c'' @ [])
         = X @ replicate 6 star @ Y \<and> length X = 7) \<and>
   Hit (ascii ''eyJx.y.z'') \<in> set (scan jwtPattern None (ascii ''*** eyJx.y.z'')) \<and>
   star \<notin> set (ascii ''eyJx.y.z'')"
proof -
  have b: "bearer_word (ascii ''bEARER'')" by code_simp
  have nb: "\<not> bearer_before (ascii ''Authorization: '')" by code_simp
  have bb: "bearer_before (ascii ''Bearer '')" by code_simp
  have ws: "ascii ''  '' \<noteq> []" "\<forall>c\<in>set (ascii ''  ''). in_ranges space_ranges c"
    by code_simp+
  have tok: "ascii ''eyJh.b.c'' \<noteq> []" "\<forall>c\<in>set (ascii ''eyJh.b.c''). \<not> in_ranges space_ranges c"
    by code_simp+
  have h: "Hit (ascii ''eyJx.y.z'') \<in> set (scan jwtPattern None (ascii ''*** eyJx.y.z''))"
    by code_simp
  note t = bearer_phrase_masked [OF b ws tok, of "ascii ''Authorization: ''"
      "ascii ''.d A123456789''" "ascii ''eyJx.y.z''" None "ascii ''*** eyJx.y.z''"]
  note t2 = bearer_phrase_masked [OF b ws tok, of "ascii ''Bearer ''" "[]"]
  have l: "length (ascii ''bEARER'' @ ascii ''  '' @ ascii ''eyJh.b.c'') = 16"
    "length (ascii ''Authorization: '') = 15" "length (ascii ''.d A123456789'') = 13"
    "length (ascii ''bEARER'') = 6" "length (ascii ''Bearer '') = 7"
    by (simp_all add: ascii_def)
  from t nb have "\<exists>X Y. MaskPII (ascii ''Authorization: '' @ ascii ''bEARER'' @ ascii ''  ''
              @ ascii ''eyJh.b.c'' @ ascii ''.d A123456789'')
         = X @ replicate 16 star @ Y \<and> length X = 15 \<and> length Y = 13"
    unfolding l by blast
  moreover from t2 have "\<exists>X Y. MaskPII (ascii ''Bearer '' @ ascii ''bEARER'' @ ascii ''  ''
              @ ascii ''eyJh.b.c'' @ [])
         = X @ replicate 6 star @ Y \<and> length X = 7"
    unfolding l by blast
  moreover from t h have "star \<notin> set (ascii ''eyJx.y.z'')" by blast
  ultimately show ?thesis using b nb bb h by blast
qed

subsection \<open>Names longer than four ideographs\<close>

text \<open>
  C10, as stated, fails. In the first text the keyword U+59D3 U+540D and the full-width
  colon are followed by the same keyword and colon again and then by a run of five
  ideographs. The search matches the first keyword with the second keyword as its name
  and goes on behind it at the colon: the five ideographs, which follow a keyword and a
  separator, are not masked at all. In the second text \<^verbatim>\<open>Bearer \<close> stands before the
  keyword, and the Bearer rule masks all of the text, the fifth ideograph included.
\<close>

theorem name_run_counterexample:
  "MaskPII ([22995, 21517, 65306] @ [22995, 21517, 65306] @ [27472, 32654, 40599, 33775, 26481])
     = [22995, 21517, 65306] @ replicate 2 star @ [65306] @ [27472, 32654, 40599, 33775, 26481] \<and>
   MaskPII (ascii ''Bearer '' @ [22995, 21517, 65306] @ [27472, 32654, 40599, 33775, 26481])
     = replicate 15 star"
proof -
  have "MaskPII ([22995, 21517, 65306] @ [22995, 21517, 65306]
        @ [27472, 32654, 40599, 33775, 26481])
     = [22995, 21517, 65306] @ replicate 2 star @ [65306] @ [27472, 32654, 40599, 33775, 26481]"
    by code_simp
  moreover have
    "MaskPII (ascii ''Bearer '' @ [22995, 21517, 65306] @ [27472, 32654, 40599, 33775, 26481])
     = replicate 15 star"
    by code_simp
  ultimately show ?thesis by (intro conjI)
qed

text \<open>
  C10, amended. Let the text after the whole-match passes contain a keyword, a separator
  and white space (possibly none) followed by a run of more than four ideographs of
  U+4E00 to U+9FFF, and let the text \<open>pre\<close> before the keyword not end with a keyword, a
  separator, white space and at most three ideographs. Then \<open>MaskPII\<close> keeps the
  keyword, the separator and the white space, puts four mask characters in the place
  of the first four ideographs of the run and keeps the other ideographs of the run;
  in the text before the keyword it changes runes to the mask character only.
\<close>

theorem name_run_first_four:
  assumes "kw \<in> set nameKeywords" and "sep = 58 \<or> sep = 65306"
    and "\<forall>c\<in>set ws. in_ranges space_ranges c"
    and "\<forall>c\<in>set run. in_ranges cjk_ranges c" and "4 < length run"
    and "\<not> name_before pre"
    and "mask_simple simplePatterns txt = pre @ kw @ sep # ws @ run @ post"
  shows "\<exists>X Y. MaskPII txt = X @ kw @ sep # ws @ replicate 4 star @ drop 4 run @ Y \<and>
           masks_of pre X \<and> length Y = length post"
  using name_run_masked [OF assms(1-6), of post] assms(7)
  by (simp add: MaskPII_def)

theorem name_run_first_four_witness:
  "mask_simple simplePatterns
      ([22995, 21517, 58, 27472, 32654] @ ascii '' a@b.cc '' @ [30003, 35531, 20154] @ 58 # ascii '' ''
         @ [27472, 32654, 40599, 33775, 26481, 21335] @ ascii '' ok'')
     = ([22995, 21517, 58, 27472, 32654] @ ascii '' ****** '') @ [30003, 35531, 20154] @ 58 # ascii '' ''
         @ [27472, 32654, 40599, 33775, 26481, 21335] @ ascii '' ok'' \<and>
   \<not> name_before ([22995, 21517, 58, 27472, 32654] @ ascii '' ****** '') \<and>
   (\<exists>X Y. MaskPII ([22995, 21517, 58, 27472, 32654] @ ascii '' a@b.cc '' @ [30003, 35531, 20154]
              @ 58 # ascii '' '' @ [27472, 32654, 40599, 33775, 26481, 21335] @ ascii '' ok'')
          = X @ [30003, 35531, 20154] @ 58 # ascii '' '' @ replicate 4 star @ [26481, 21335] @ Y \<and>
        masks_of ([22995, 21517, 58, 27472, 32654] @ ascii '' ****** '') X \<and>
        length Y = 3)"
proof -
  have kw: "[30003, 35531, 20154] \<in> set nameKeywords" by code_simp
  have sep: "(58 :: rune) = 58 \<or> (58 :: rune) = 65306" by simp
  have ws: "\<forall>c\<in>set (ascii '' ''). in_ranges space_ranges c" by code_simp
  have run: "\<forall>c\<in>set [27472, 32654, 40599, 33775, 26481, 21335]. in_ranges cjk_ranges c"
    "4 < length [27472, 32654, 40599, 33775, 26481, 21335 :: rune]"
    by code_simp+
  have nb: "\<not> name_before ([22995, 21517, 58, 27472, 32654] @ ascii '' ****** '')"
    by code_simp
  have ms: "mask_simple simplePatterns
      ([22995, 21517, 58, 27472, 32654] @ ascii '' a@b.cc '' @ [30003, 35531, 20154] @ 58 # ascii '' ''
         @ [27472, 32654, 40599, 33775, 26481, 21335] @ ascii '' ok'')
     = ([22995, 21517, 58, 27472, 32654] @ ascii '' ****** '') @ [30003, 35531, 20154] @ 58 # ascii '' ''
         @ [27472, 32654, 40599, 33775, 26481, 21335] @ ascii '' ok''"
    by code_simp
  have l: "length (ascii '' ok'') = 3" by (simp add: ascii_def)
  have d: "drop 4 [27472, 32654, 40599, 33775, 26481, 21335 :: rune] = [26481, 21335]" by simp
  from name_run_first_four [OF kw sep ws run nb ms]
  have "\<exists>X Y. MaskPII ([22995, 21517, 58, 27472, 32654] @ ascii '' a@b.cc '' @ [30003, 35531, 20154]
              @ 58 # ascii '' '' @ [27472, 32654, 40599, 33775, 26481, 21335] @ ascii '' ok'')
          = X @ [30003, 35531, 20154] @ 58 # ascii '' '' @ replicate 4 star @ [26481, 21335] @ Y \<and>
        masks_of ([22995, 21517, 58, 27472, 32654] @ ascii '' ****** '') X \<and>
        length Y = 3"
    unfolding l d .
  with ms nb show ?thesis by blast
qed

end
